theory Spec2Isabelle
  imports Main "HOL-Library.Sublist" "HOL-Library.Char_ord" "HOL-Library.List_Lexorder"
begin

section \<open>Divisor: the \<open>generate\<close> command of \<open>src/cli.py\<close>\<close>

text \<open>
  The development embeds the orchestrator \<open>generate\<close> of \<open>src/cli.py\<close>
  (lines 19-66) together with the functions of Python's \<open>posixpath\<close> and \<open>os\<close>
  modules it calls. Paths are Python \<open>str\<close> values, modelled as \<open>string\<close>.
\<close>

subsection \<open>Python string operations\<close>

type_synonym path = string

text \<open>\<open>s.startswith(t)\<close> and \<open>s.endswith(t)\<close>.\<close>

definition startswith :: "string \<Rightarrow> string \<Rightarrow> bool" where
  "startswith s t = (take (length t) s = t)"

definition endswith :: "string \<Rightarrow> string \<Rightarrow> bool" where
  "endswith s t = (length t \<le> length s \<and> drop (length s - length t) s = t)"

text \<open>\<open>s.rfind(c)\<close> for a one-character \<open>c\<close>: the highest index of \<open>c\<close>, or \<open>-1\<close>.\<close>

definition rfind :: "string \<Rightarrow> char \<Rightarrow> int" where
  "rfind s c =
     (let r = takeWhile (\<lambda>x. x \<noteq> c) (rev s)
      in if length r = length s then - 1 else int (length s) - int (length r) - 1)"

text \<open>\<open>s.split(c)\<close> for a one-character separator: never the empty list.\<close>

fun split_on :: "char \<Rightarrow> string \<Rightarrow> string list" where
  "split_on c [] = [[]]"
| "split_on c (x # xs) =
     (if x = c then [] # split_on c xs
      else (x # hd (split_on c xs)) # tl (split_on c xs))"

text \<open>\<open>c.join(xs)\<close> for a one-character separator.\<close>

fun join_on :: "char \<Rightarrow> string list \<Rightarrow> string" where
  "join_on c [] = []"
| "join_on c [x] = x"
| "join_on c (x # y # ys) = x @ c # join_on c (y # ys)"

text \<open>\<open>s.lstrip(c)\<close> and \<open>s.rstrip(c)\<close> for a one-character \<open>c\<close>.\<close>

definition lstrip :: "char \<Rightarrow> string \<Rightarrow> string" where
  "lstrip c s = dropWhile (\<lambda>x. x = c) s"

definition rstrip :: "char \<Rightarrow> string \<Rightarrow> string" where
  "rstrip c s = rev (dropWhile (\<lambda>x. x = c) (rev s))"

subsection \<open>\<open>posixpath\<close>\<close>

abbreviation sep :: char where
  "sep \<equiv> CHR ''/''"

abbreviation extsep :: char where
  "extsep \<equiv> CHR ''.''"

text \<open>
  \<open>os.path.join(a, b)\<close> with one tail argument, as \<open>generate\<close> and \<open>os.walk\<close> call it:
  \<^verbatim>\<open>
    if b.startswith(sep): path = b
    elif not path or path.endswith(sep): path += b
    else: path += sep + b
  \<close>
\<close>

definition os_path_join :: "path \<Rightarrow> path \<Rightarrow> path" where
  "os_path_join a b =
     (if startswith b [sep] then b
      else if a = [] \<or> endswith a [sep] then a @ b
      else a @ sep # b)"

text \<open>
  \<open>os.path.splitext(p)\<close> (\<open>genericpath._splitext\<close>): the extension starts at the
  last dot of the last component, and leading dots of that component do not count:
  \<^verbatim>\<open>
    sepIndex = p.rfind(sep)
    dotIndex = p.rfind(extsep)
    if dotIndex > sepIndex:
        filenameIndex = sepIndex + 1
        while filenameIndex < dotIndex:
            if p[filenameIndex:filenameIndex+1] != extsep:
                return p[:dotIndex], p[dotIndex:]
            filenameIndex += 1
    return p, p[:0]
  \<close>
  The \<open>while\<close> loop returns the split at the first character between
  \<open>filenameIndex\<close> and \<open>dotIndex\<close> that is not a dot; it is the search
  \<open>list_ex\<close> over that slice.
\<close>

definition os_path_splitext :: "path \<Rightarrow> path \<times> string" where
  "os_path_splitext p =
     (let sepIndex = rfind p sep;
          dotIndex = rfind p extsep
      in if dotIndex > sepIndex then
           (let filenameIndex = sepIndex + 1
            in if list_ex (\<lambda>c. c \<noteq> extsep)
                    (take (nat (dotIndex - filenameIndex)) (drop (nat filenameIndex) p))
               then (take (nat dotIndex) p, drop (nat dotIndex) p)
               else (p, []))
         else (p, []))"

text \<open>
  \<open>os.path.split(p)\<close>:
  \<^verbatim>\<open>
    i = p.rfind(sep) + 1
    head, tail = p[:i], p[i:]
    if head and head != sep*len(head):
        head = head.rstrip(sep)
    return head, tail
  \<close>
\<close>

definition os_path_split :: "path \<Rightarrow> path \<times> path" where
  "os_path_split p =
     (let i = nat (rfind p sep + 1);
          head = take i p;
          tail = drop i p
      in if head \<noteq> [] \<and> head \<noteq> replicate (length head) sep
         then (rstrip sep head, tail) else (head, tail))"

text \<open>
  \<open>os.path.normpath(path)\<close>. The loop over the components keeps a stack
  \<open>new_comps\<close>:
  \<^verbatim>\<open>
    for comp in comps:
        if comp in ('', '.'): continue
        if (comp != '..' or (not initial_slashes and not new_comps) or
             (new_comps and new_comps[-1] == '..')):
            new_comps.append(comp)
        elif new_comps:
            new_comps.pop()
  \<close>
\<close>

definition norm_step :: "nat \<Rightarrow> string \<Rightarrow> string list \<Rightarrow> string list" where
  "norm_step initial_slashes cmp new_comps =
     (if cmp = [] \<or> cmp = ''.'' then new_comps
      else if cmp \<noteq> ''..'' \<or> (initial_slashes = 0 \<and> new_comps = [])
              \<or> (new_comps \<noteq> [] \<and> last new_comps = ''..'')
           then new_comps @ [cmp]
      else if new_comps \<noteq> [] then butlast new_comps
      else new_comps)"

definition os_path_normpath :: "path \<Rightarrow> path" where
  "os_path_normpath p =
     (if p = [] then ''.''
      else
        (let initial_slashes =
               (if startswith p [sep] then
                  (if startswith p [sep, sep] \<and> \<not> startswith p [sep, sep, sep]
                   then 2 else 1)
                else 0);
             comps = fold (norm_step initial_slashes) (split_on sep p) [];
             r = replicate initial_slashes sep @ join_on sep comps
         in if r = [] then ''.'' else r))"

text \<open>
  \<open>os.path.abspath(path)\<close>; the current directory \<open>os.getcwd()\<close> is a parameter.
\<close>

definition os_path_isabs :: "path \<Rightarrow> bool" where
  "os_path_isabs p = startswith p [sep]"

definition os_path_abspath :: "path \<Rightarrow> path \<Rightarrow> path" where
  "os_path_abspath cwd p =
     os_path_normpath (if os_path_isabs p then p else os_path_join cwd p)"

text \<open>
  \<open>os.path.commonprefix\<close> on two component lists, as \<open>relpath\<close> calls it: the longest
  common prefix.
\<close>

fun commonprefix :: "'a list \<Rightarrow> 'a list \<Rightarrow> 'a list" where
  "commonprefix (x # xs) (y # ys) = (if x = y then x # commonprefix xs ys else [])"
| "commonprefix _ _ = []"

datatype error =
    ValueError
  | FileExistsError
  | FileNotFoundError
  | NotADirectoryError
  | ExternalError string

text \<open>
  \<open>os.path.relpath(path, start)\<close>:
  \<^verbatim>\<open>
    if not path: raise ValueError("no path specified")
    start_tail = abspath(start).lstrip(sep)
    path_tail = abspath(path).lstrip(sep)
    start_list = start_tail.split(sep) if start_tail else []
    path_list = path_tail.split(sep) if path_tail else []
    i = len(commonprefix([start_list, path_list]))
    rel_list = [pardir] * (len(start_list)-i) + path_list[i:]
    if not rel_list: return curdir
    return sep.join(rel_list)
  \<close>
\<close>

definition os_path_relpath :: "path \<Rightarrow> path \<Rightarrow> path \<Rightarrow> error + path" where
  "os_path_relpath cwd p start =
     (if p = [] then Inl ValueError
      else
        (let start_tail = lstrip sep (os_path_abspath cwd start);
             path_tail = lstrip sep (os_path_abspath cwd p);
             start_list = (if start_tail \<noteq> [] then split_on sep start_tail else []);
             path_list = (if path_tail \<noteq> [] then split_on sep path_tail else []);
             i = length (commonprefix start_list path_list);
             rel_list = replicate (length start_list - i) ''..'' @ drop i path_list
         in if rel_list = [] then Inr ''.'' else Inr (join_on sep rel_list)))"

subsection \<open>The file system\<close>

text \<open>
  The run sees the file system in two ways. The source folder that \<open>os.path.exists\<close>
  and \<open>os.walk\<close> read is a tree whose directories list their entries in the order
  \<open>os.scandir\<close> returns them. The directories that \<open>os.makedirs\<close> tests and
  creates are kept in a state, threaded through the run: the kinds of the locations
  that exist, a location being the list of names from the root directory, and the
  current directory. There are no symbolic links.
\<close>

datatype node = File | Dir "(string \<times> node) list"

datatype kind = RegularFile | Directory

type_synonym location = "string list"

record filesystem =
  cwd :: location
  kinds :: "location \<Rightarrow> kind option"

definition kind_at :: "filesystem \<Rightarrow> location \<Rightarrow> kind option" where
  "kind_at fs l = (if l = [] then Some Directory else kinds fs l)"

text \<open>\<open>os.getcwd()\<close>: the absolute path of the current directory.\<close>

definition os_getcwd :: "filesystem \<Rightarrow> path" where
  "os_getcwd fs = sep # join_on sep (cwd fs)"

text \<open>
  Path resolution, one component at a time: the empty component and \<open>.\<close> stay in
  a directory, \<open>..\<close> goes to the parent (the root is its own parent), a name goes to
  the entry of that name. A component looked up in something that is not a
  directory is \<open>ENOTDIR\<close>, a missing entry is \<open>ENOENT\<close>.
\<close>

fun lookup_step :: "filesystem \<Rightarrow> string \<Rightarrow> error + location \<Rightarrow> error + location" where
  "lookup_step fs c (Inl e) = Inl e"
| "lookup_step fs c (Inr l) =
     (if kind_at fs l \<noteq> Some Directory then Inl NotADirectoryError
      else if c = [] \<or> c = ''.'' then Inr l
      else if c = ''..'' then
        (if kind_at fs (butlast l) = Some Directory then Inr (butlast l)
         else Inl FileNotFoundError)
      else if kind_at fs (l @ [c]) = None then Inl FileNotFoundError
      else Inr (l @ [c]))"

definition start_of :: "filesystem \<Rightarrow> path \<Rightarrow> error + location" where
  "start_of fs p = Inr (if startswith p [sep] then [] else cwd fs)"

definition resolve :: "filesystem \<Rightarrow> path \<Rightarrow> error + location" where
  "resolve fs p =
     (if p = [] then Inl FileNotFoundError
      else fold (lookup_step fs) (split_on sep p) (start_of fs p))"

definition os_path_exists :: "filesystem \<Rightarrow> path \<Rightarrow> bool" where
  "os_path_exists fs p = (case resolve fs p of Inl e \<Rightarrow> False | Inr l \<Rightarrow> True)"

definition os_path_isdir :: "filesystem \<Rightarrow> path \<Rightarrow> bool" where
  "os_path_isdir fs p =
     (case resolve fs p of Inl e \<Rightarrow> False | Inr l \<Rightarrow> kind_at fs l = Some Directory)"

text \<open>
  \<open>os.mkdir(p)\<close>: trailing separators are ignored; the parent must resolve to a
  directory; the last component must not exist (\<open>.\<close> and \<open>..\<close> always do).
\<close>

definition os_mkdir :: "filesystem \<Rightarrow> path \<Rightarrow> error + filesystem" where
  "os_mkdir fs p =
     (if p = [] then Inl FileNotFoundError
      else
        (let cs = rev (dropWhile (\<lambda>c. c = []) (rev (split_on sep p)))
         in if cs = [] then Inl FileExistsError
            else
              (case fold (lookup_step fs) (butlast cs) (start_of fs p) of
                 Inl e \<Rightarrow> Inl e
               | Inr l \<Rightarrow>
                   if kind_at fs l \<noteq> Some Directory then Inl NotADirectoryError
                   else if last cs = ''.'' \<or> last cs = ''..'' then Inl FileExistsError
                   else if kind_at fs (l @ [last cs]) \<noteq> None then Inl FileExistsError
                   else Inr (fs\<lparr>kinds := (kinds fs)(l @ [last cs] \<mapsto> Directory)\<rparr>))))"

text \<open>
  \<open>os.makedirs(name, exist_ok)\<close>:
  \<^verbatim>\<open>
    head, tail = path.split(name)
    if not tail:
        head, tail = path.split(head)
    if head and tail and not path.exists(head):
        try:
            makedirs(head, exist_ok=exist_ok)
        except FileExistsError:
            pass
        if tail == curdir:
            return
    try:
        mkdir(name, mode)
    except OSError:
        if not exist_ok or not path.isdir(name):
            raise
  \<close>
  The result is the exception raised, if any, and the file system as the call
  leaves it.
\<close>

definition makedirs_split :: "path \<Rightarrow> path \<times> path" where
  "makedirs_split name =
     (let (head, tail) = os_path_split name
      in if tail = [] then os_path_split head else (head, tail))"

definition makedirs_leaf :: "filesystem \<Rightarrow> path \<Rightarrow> bool \<Rightarrow> error option \<times> filesystem" where
  "makedirs_leaf fs name exist_ok =
     (case os_mkdir fs name of
        Inr fs' \<Rightarrow> (None, fs')
      | Inl e \<Rightarrow>
          if \<not> exist_ok \<or> \<not> os_path_isdir fs name then (Some e, fs) else (None, fs))"

lemma rstrip_length: "length (rstrip c s) \<le> length s"
  by (simp add: rstrip_def length_dropWhile_le order_trans [OF length_dropWhile_le])

lemma rfind_upper: "rfind s c < int (length s)"
  by (simp add: rfind_def Let_def)

lemma os_path_split_length:
  "os_path_split p = (h, t) \<Longrightarrow> length h + length t \<le> length p"
proof -
  assume a: "os_path_split p = (h, t)"
  let ?i = "nat (rfind p sep + 1)"
  have i: "?i \<le> length p"
    using rfind_upper [of p sep] by simp
  have t: "t = drop ?i p"
    using a by (auto simp: os_path_split_def Let_def split: if_splits)
  have "length h \<le> length (take ?i p)"
    using a rstrip_length [of sep "take ?i p"]
    by (auto simp: os_path_split_def Let_def split: if_splits)
  then have "length h \<le> ?i" by simp
  then show ?thesis using t i by simp
qed

lemma makedirs_split_shorter:
  assumes "makedirs_split name = (h, t)" and "t \<noteq> []"
  shows "length h < length name"
proof (cases "snd (os_path_split name) = []")
  case False
  then have "os_path_split name = (h, t)"
    using assms(1) by (simp add: makedirs_split_def Let_def split: prod.splits)
  from os_path_split_length [OF this] assms(2) show ?thesis
    by (cases t) auto
next
  case True
  obtain h0 where h0: "os_path_split name = (h0, [])"
    using True by (cases "os_path_split name") auto
  then have "os_path_split h0 = (h, t)"
    using assms(1) by (simp add: makedirs_split_def)
  from os_path_split_length [OF this] os_path_split_length [OF h0] assms(2)
  show ?thesis by (cases t) auto
qed

function os_makedirs :: "filesystem \<Rightarrow> path \<Rightarrow> bool \<Rightarrow> error option \<times> filesystem" where
  "os_makedirs fs name exist_ok =
     (case makedirs_split name of
        (head, tail) \<Rightarrow>
          if head \<noteq> [] \<and> tail \<noteq> [] \<and> \<not> os_path_exists fs head then
            (case os_makedirs fs head exist_ok of
               (Some e, fs1) \<Rightarrow>
                 if e = FileExistsError then
                   (if tail = ''.'' then (None, fs1) else makedirs_leaf fs1 name exist_ok)
                 else (Some e, fs1)
             | (None, fs1) \<Rightarrow>
                 if tail = ''.'' then (None, fs1) else makedirs_leaf fs1 name exist_ok)
          else makedirs_leaf fs name exist_ok)"
  by pat_completeness auto
termination
  by (relation "measure (\<lambda>(fs, name, exist_ok). length name)")
     (auto dest: makedirs_split_shorter [OF sym])

declare os_makedirs.simps [simp del]

subsection \<open>\<open>os.walk\<close>\<close>

text \<open>
  \<open>os.walk(top)\<close>, top-down and not following links: it yields
  \<open>(top, dirs, files)\<close> for the directory itself, the names in the order of the
  listing, and then walks each directory of \<open>dirs\<close> in that order, under
  \<open>os.path.join(top, name)\<close>. A \<open>top\<close> that cannot be listed yields nothing.
\<close>

fun is_dir :: "node \<Rightarrow> bool" where
  "is_dir File = False"
| "is_dir (Dir es) = True"

definition dirnames :: "(string \<times> node) list \<Rightarrow> string list" where
  "dirnames es = map fst (filter (\<lambda>e. is_dir (snd e)) es)"

definition filenames :: "(string \<times> node) list \<Rightarrow> string list" where
  "filenames es = map fst (filter (\<lambda>e. \<not> is_dir (snd e)) es)"

fun os_walk :: "path \<Rightarrow> node \<Rightarrow> (path \<times> string list \<times> string list) list"
  and walk_dirs :: "path \<Rightarrow> (string \<times> node) list \<Rightarrow> (path \<times> string list \<times> string list) list"
where
  "os_walk top_dir File = []"
| "os_walk top_dir (Dir es) = (top_dir, dirnames es, filenames es) # walk_dirs top_dir es"
| "walk_dirs top_dir [] = []"
| "walk_dirs top_dir ((n, File) # es) = walk_dirs top_dir es"
| "walk_dirs top_dir ((n, Dir sub) # es) =
     os_walk (os_path_join top_dir n) (Dir sub) @ walk_dirs top_dir es"

subsection \<open>The configuration\<close>

text \<open>
  Modelled from the spec: the configuration classes of \<open>divisor.config\<close> are not
  under \<open>src/\<close>. The records hold the fields of SiteConfig (spec section 3) that
  \<open>generate\<close> reads, under the attribute names it reads them by; the subpages
  folder is optional.
\<close>

record content_mapping =
  home_page_source :: string
  subpages_folder :: "string option"
  destination_folder :: string
  media_destination_folder :: string

record config =
  source_repository :: string
  content_mapping :: content_mapping

subsection \<open>Runs\<close>

text \<open>
  Every statement of \<open>generate\<close> with an effect is a call: to one of the
  collaborators imported from the \<open>divisor\<close> package, to \<open>os.makedirs\<close>, or to
  \<open>print\<close> and \<open>click.echo\<close>. A call carries the arguments the code passes.
\<close>

datatype call =
    LoadConfig path
  | NewSourceFetcher string
  | Fetch
  | Print string
  | NewJekyllSite path config
  | CreateStructure
  | NewConverter config
  | ConvertFile path path path
  | Makedirs path
  | NewAssetHandler config
  | CopyAssets path path
  | Echo string

text \<open>
  The world outside \<open>src/cli.py\<close>: what \<open>load_config\<close> returns or raises; the
  tree that \<open>os.path.exists\<close> and \<open>os.walk\<close> find at a path (\<open>None\<close> when nothing
  is there); and, for each call to a collaborator, the exception it raises, if
  any, and the file system it leaves. The writes of a run go to the destination
  folder; the tree under the subpages folder is the one the walk observes.
\<close>

record world =
  load_config :: "path \<Rightarrow> error + config"
  source_at :: "path \<Rightarrow> node option"
  external :: "call \<Rightarrow> filesystem \<Rightarrow> error option \<times> filesystem"

text \<open>
  The state of a run: the calls made so far, each with the file system it was
  invoked on; the file system now; the exception that ended the run, if any.
\<close>

record run =
  log :: "(call \<times> filesystem) list"
  files :: filesystem
  failed :: "error option"

definition effect :: "world \<Rightarrow> call \<Rightarrow> filesystem \<Rightarrow> error option \<times> filesystem" where
  "effect w c fs =
     (case c of
        Makedirs d \<Rightarrow> os_makedirs fs d True
      | Print s \<Rightarrow> (None, fs)
      | Echo s \<Rightarrow> (None, fs)
      | _ \<Rightarrow> external w c fs)"

text \<open>A statement is not reached once an exception has been raised.\<close>

definition call :: "world \<Rightarrow> call \<Rightarrow> run \<Rightarrow> run" where
  "call w c st =
     (if failed st \<noteq> None then st
      else
        (case effect w c (files st) of
           (e, fs') \<Rightarrow> \<lparr>log = log st @ [(c, files st)], files = fs', failed = e\<rparr>))"

definition raise :: "error \<Rightarrow> run \<Rightarrow> run" where
  "raise e st = (if failed st \<noteq> None then st else st\<lparr>failed := Some e\<rparr>)"

subsection \<open>\<open>generate\<close>\<close>

text \<open>
  The body of the inner loop (lines 51-57), for one \<open>file\<close> of one
  \<open>(root, _, files)\<close> of the walk:
  \<^verbatim>\<open>
    if file.endswith(".md"):
        source_path = os.path.join(root, file)
        relative_path = os.path.relpath(source_path, subpages_source_dir)
        dest_dir = os.path.join(subpages_dest_dir, os.path.splitext(relative_path)[0])
        os.makedirs(dest_dir, exist_ok=True)
        dest_path = os.path.join(dest_dir, "index.md")
        converter.convert_file(source_path, dest_path, "source_repo")
  \<close>
\<close>

definition convert_subpage :: "world \<Rightarrow> path \<Rightarrow> path \<Rightarrow> path \<Rightarrow> string \<Rightarrow> run \<Rightarrow> run" where
  "convert_subpage w subpages_source_dir subpages_dest_dir root file st =
     (if endswith file ''.md'' then
        (let source_path = os_path_join root file
         in case os_path_relpath (os_getcwd (files st)) source_path subpages_source_dir of
              Inl e \<Rightarrow> raise e st
            | Inr relative_path \<Rightarrow>
                (let dest_dir =
                       os_path_join subpages_dest_dir (fst (os_path_splitext relative_path));
                     st1 = call w (Makedirs dest_dir) st;
                     dest_path = os_path_join dest_dir ''index.md''
                 in call w (ConvertFile source_path dest_path ''source_repo'') st1))
      else st)"

text \<open>
  The subpage step (lines 44-57):
  \<^verbatim>\<open>
    if cfg.content_mapping.subpages_folder and cfg.content_mapping.subpages_folder != "<none>":
        subpages_source_dir = f"source_repo/{cfg.content_mapping.subpages_folder}"
        subpages_dest_dir = f"{cfg.content_mapping.destination_folder}"
        if os.path.exists(subpages_source_dir):
            for root, _, files in os.walk(subpages_source_dir):
                for file in files:
                    ...
  \<close>
  A folder that is \<open>None\<close> or the empty string is false in Python.
\<close>

definition convert_subpages :: "world \<Rightarrow> config \<Rightarrow> run \<Rightarrow> run" where
  "convert_subpages w cfg st =
     (case subpages_folder (content_mapping cfg) of
        None \<Rightarrow> st
      | Some folder \<Rightarrow>
          if folder \<noteq> [] \<and> folder \<noteq> ''<none>'' then
            (let subpages_source_dir = ''source_repo/'' @ folder;
                 subpages_dest_dir = destination_folder (content_mapping cfg)
             in case source_at w subpages_source_dir of
                  None \<Rightarrow> st
                | Some t \<Rightarrow>
                    fold (\<lambda>(root, dirs, files).
                            fold (convert_subpage w subpages_source_dir subpages_dest_dir root) files)
                      (os_walk subpages_source_dir t) st)
          else st)"

text \<open>The statements of \<open>generate\<close> after \<open>load_config\<close> (lines 26-66).\<close>

definition generate_with :: "world \<Rightarrow> config \<Rightarrow> run \<Rightarrow> run" where
  "generate_with w cfg st0 =
     (let cm = content_mapping cfg;
          st1 = call w (NewSourceFetcher (source_repository cfg)) st0;
          st2 = call w Fetch st1;
          st3 = call w (Print (''Destination folder: '' @ destination_folder cm)) st2;
          st4 = call w (NewJekyllSite (destination_folder cm) cfg) st3;
          st5 = call w CreateStructure st4;
          st6 = call w (NewConverter cfg) st5;
          st7 = call w (ConvertFile (''source_repo/'' @ home_page_source cm)
                          (destination_folder cm @ ''/index.md'') ''source_repo'') st6;
          st8 = convert_subpages w cfg st7;
          st9 = call w (NewAssetHandler cfg) st8;
          st10 = call w (CopyAssets ''source_repo''
                           (destination_folder cm @ ''/'' @ media_destination_folder cm)) st9
      in call w (Echo ''Website generated successfully!'') st10)"

text \<open>\<open>generate(config)\<close>, started on the file system \<open>fs\<close>.\<close>

definition generate :: "world \<Rightarrow> path \<Rightarrow> filesystem \<Rightarrow> run" where
  "generate w config_path fs =
     (case load_config w config_path of
        Inl e \<Rightarrow> \<lparr>log = [(LoadConfig config_path, fs)], files = fs, failed = Some e\<rparr>
      | Inr cfg \<Rightarrow>
          generate_with w cfg \<lparr>log = [(LoadConfig config_path, fs)], files = fs, failed = None\<rparr>)"

text \<open>Views of a run: the calls in order, what was printed, the page conversions.\<close>

definition calls :: "run \<Rightarrow> call list" where
  "calls st = map fst (log st)"

fun output_of :: "call \<Rightarrow> string list" where
  "output_of (Print s) = [s]"
| "output_of (Echo s) = [s]"
| "output_of _ = []"

definition outputs :: "run \<Rightarrow> string list" where
  "outputs st = concat (map output_of (calls st))"

fun conversion_of :: "call \<Rightarrow> (path \<times> path) list" where
  "conversion_of (ConvertFile s d b) = [(s, d)]"
| "conversion_of _ = []"

definition conversions :: "run \<Rightarrow> (path \<times> path) list" where
  "conversions st = concat (map conversion_of (calls st))"

section \<open>Properties\<close>

subsection \<open>Strings and path components\<close>

text \<open>
  A name that a directory entry can have: not empty, without separator, and
  neither \<open>.\<close> nor \<open>..\<close>.
\<close>

definition valid_name :: "string \<Rightarrow> bool" where
  "valid_name n = (n \<noteq> [] \<and> sep \<notin> set n \<and> n \<noteq> ''.'' \<and> n \<noteq> ''..'')"

lemma split_on_not_Nil [simp]: "split_on c s \<noteq> []"
  by (cases s) auto

lemma split_on_append_sep: "split_on c (xs @ c # ys) = split_on c xs @ split_on c ys"
  by (induction xs) auto

lemma split_on_no_sep: "c \<notin> set s \<Longrightarrow> split_on c s = [s]"
  by (induction s) auto

lemma split_on_free: "x \<in> set (split_on c s) \<Longrightarrow> c \<notin> set x"
proof (induction s arbitrary: x)
  case Nil
  then show ?case by simp
next
  case (Cons a s)
  show ?case
  proof (cases "a = c")
    case True
    with Cons show ?thesis by auto
  next
    case False
    have "split_on c s = hd (split_on c s) # tl (split_on c s)" by simp
    then have "hd (split_on c s) \<in> set (split_on c s)" "set (tl (split_on c s)) \<subseteq> set (split_on c s)"
      by (metis list.set_intros(1), metis list.set_intros(2) subsetI)
    with Cons False show ?thesis by auto
  qed
qed

lemma join_on_Cons: "xs \<noteq> [] \<Longrightarrow> join_on c (x # xs) = x @ c # join_on c xs"
  by (cases xs) auto

lemma join_on_snoc: "xs \<noteq> [] \<Longrightarrow> join_on c (xs @ [x]) = join_on c xs @ c # x"
  by (induction c xs rule: join_on.induct) auto

lemma split_join:
  "xs \<noteq> [] \<Longrightarrow> (\<And>x. x \<in> set xs \<Longrightarrow> c \<notin> set x) \<Longrightarrow> split_on c (join_on c xs) = xs"
proof (induction c xs rule: join_on.induct)
  case (1 c)
  then show ?case by simp
next
  case (2 c x)
  then show ?case by (simp add: split_on_no_sep)
next
  case (3 c x y ys)
  then show ?case by (simp add: split_on_append_sep split_on_no_sep)
qed

lemma join_on_eq_Nil: "(\<And>x. x \<in> set xs \<Longrightarrow> x \<noteq> []) \<Longrightarrow> join_on c xs = [] \<longleftrightarrow> xs = []"
  by (induction c xs rule: join_on.induct) auto

lemma join_on_hd: "xs \<noteq> [] \<Longrightarrow> hd xs \<noteq> [] \<Longrightarrow> join_on c xs \<noteq> [] \<and> hd (join_on c xs) = hd (hd xs)"
  by (induction c xs rule: join_on.induct) auto

lemma commonprefix_append [simp]: "commonprefix xs (xs @ ys) = xs"
  by (induction xs) auto

lemma startswith_sep: "startswith s [sep] \<longleftrightarrow> (s \<noteq> [] \<and> hd s = sep)"
  by (cases s) (auto simp: startswith_def)

lemma endswith_sep: "endswith s [sep] \<longleftrightarrow> (s \<noteq> [] \<and> last s = sep)"
proof (cases s rule: rev_cases)
  case Nil
  then show ?thesis by (simp add: endswith_def)
next
  case (snoc ys y)
  then show ?thesis by (auto simp: endswith_def)
qed

text \<open>
  Joining a name to a path adds one component: a fold over the components that
  ignores the empty component sees the components of the path, then the name.
\<close>

lemma fold_split_join:
  assumes id: "\<And>z. f [] z = z" and b: "sep \<notin> set b"
  shows "fold f (split_on sep (os_path_join a b)) z = f b (fold f (split_on sep a) z)"
proof -
  have nb: "\<not> startswith b [sep]"
    using b by (auto simp: startswith_sep) (metis hd_in_set)
  show ?thesis
  proof (cases "a = []")
    case True
    then show ?thesis using nb b id by (simp add: os_path_join_def split_on_no_sep)
  next
    case False
    show ?thesis
    proof (cases "endswith a [sep]")
      case True
      then obtain a' where a': "a = a' @ [sep]"
        using False by (auto simp: endswith_sep) (metis append_butlast_last_id)
      have "os_path_join a b = a' @ sep # b"
        using True nb a' by (simp add: os_path_join_def)
      moreover have "split_on sep a = split_on sep a' @ [[]]"
        using a' split_on_append_sep [of sep a' "[]"] by simp
      ultimately show ?thesis
        using b id by (simp add: split_on_append_sep split_on_no_sep)
    next
      case no: False
      have "os_path_join a b = a @ sep # b"
        using no nb False by (simp add: os_path_join_def)
      then show ?thesis
        using b by (simp add: split_on_append_sep split_on_no_sep)
    qed
  qed
qed

subsection \<open>\<open>os.path.relpath\<close> of a path below its start\<close>

definition norm_comps :: "nat \<Rightarrow> path \<Rightarrow> string list" where
  "norm_comps k p = fold (norm_step k) (split_on sep p) []"

lemma norm_step_valid: "k \<noteq> 0 \<Longrightarrow> valid_name b \<Longrightarrow> norm_step k b acc = acc @ [b]"
  by (simp add: norm_step_def valid_name_def)

lemma norm_step_nonzero: "k \<noteq> 0 \<Longrightarrow> norm_step k = norm_step (Suc 0)"
  by (auto simp: fun_eq_iff norm_step_def)

lemma norm_comps_join:
  "k \<noteq> 0 \<Longrightarrow> valid_name b \<Longrightarrow> norm_comps k (os_path_join a b) = norm_comps k a @ [b]"
  unfolding norm_comps_def
  by (subst fold_split_join) (simp_all add: norm_step_valid, simp_all add: norm_step_def valid_name_def)

lemma norm_comps_foldl_join:
  "k \<noteq> 0 \<Longrightarrow> list_all valid_name cs \<Longrightarrow>
     norm_comps k (foldl os_path_join a cs) = norm_comps k a @ cs"
  by (induction cs arbitrary: a) (simp_all add: norm_comps_join)

lemma fold_norm_step_set:
  "x \<in> set (fold (norm_step k) xs acc) \<Longrightarrow> x \<in> set acc \<or> (x \<in> set xs \<and> x \<noteq> [])"
proof (induction xs arbitrary: acc)
  case Nil
  then show ?case by simp
next
  case (Cons y ys)
  from Cons.IH [OF Cons.prems [simplified]]
  show ?case
    by (auto simp: norm_step_def split: if_splits dest: in_set_butlastD)
qed

lemma norm_comps_clean:
  assumes "x \<in> set (norm_comps k p)"
  shows "x \<noteq> [] \<and> sep \<notin> set x"
  using fold_norm_step_set [of x k "split_on sep p" "[]"] assms split_on_free [of x sep p]
  by (auto simp: norm_comps_def)

lemma normpath_abs:
  assumes "startswith p [sep]"
  shows "\<exists>k. k \<noteq> 0 \<and> os_path_normpath p = replicate k sep @ join_on sep (norm_comps (Suc 0) p)"
proof -
  have p: "p \<noteq> []" using assms by (auto simp: startswith_def)
  let ?k = "if startswith p [sep, sep] \<and> \<not> startswith p [sep, sep, sep] then 2 else Suc 0"
  have "os_path_normpath p = replicate ?k sep @ join_on sep (norm_comps ?k p)"
    using p assms by (auto simp: os_path_normpath_def Let_def norm_comps_def)
  moreover have "norm_comps ?k p = norm_comps (Suc 0) p"
    by (simp add: norm_comps_def norm_step_nonzero [of 2])
  ultimately show ?thesis
    by (intro exI [of _ ?k]) auto
qed

lemma lstrip_replicate: "lstrip c (replicate k c @ s) = lstrip c s"
  by (induction k) (simp_all add: lstrip_def)

lemma lstrip_join_clean:
  assumes "\<And>x. x \<in> set xs \<Longrightarrow> x \<noteq> [] \<and> sep \<notin> set x"
  shows "lstrip sep (join_on sep xs) = join_on sep xs"
proof (cases xs)
  case Nil
  then show ?thesis by (simp add: lstrip_def)
next
  case (Cons y ys)
  then have y: "y \<noteq> []" "sep \<notin> set y" using assms by auto
  then have "join_on sep xs \<noteq> [] \<and> hd (join_on sep xs) = hd y"
    using join_on_hd [of xs sep] Cons by simp
  moreover have "hd y \<noteq> sep" using y by (metis hd_in_set)
  ultimately show ?thesis
    by (cases "join_on sep xs") (auto simp: lstrip_def)
qed

lemma relpath_list:
  assumes "startswith p [sep]"
  shows "(let t = lstrip sep (os_path_normpath p) in if t \<noteq> [] then split_on sep t else [])
           = norm_comps (Suc 0) p"
proof -
  let ?cs = "norm_comps (Suc 0) p"
  have clean: "\<And>x. x \<in> set ?cs \<Longrightarrow> x \<noteq> [] \<and> sep \<notin> set x"
    by (rule norm_comps_clean)
  obtain k where "os_path_normpath p = replicate k sep @ join_on sep ?cs"
    using normpath_abs [OF assms] by blast
  then have t: "lstrip sep (os_path_normpath p) = join_on sep ?cs"
    using lstrip_join_clean [of ?cs] clean by (simp add: lstrip_replicate)
  show ?thesis
  proof (cases "?cs = []")
    case True
    then show ?thesis using t by simp
  next
    case False
    then have "join_on sep ?cs \<noteq> []"
      using join_on_eq_Nil [of ?cs sep] clean by blast
    moreover have "split_on sep (join_on sep ?cs) = ?cs"
      using split_join [OF False, of sep] clean by blast
    ultimately show ?thesis using t by (simp add: Let_def)
  qed
qed

lemma valid_not_startswith: "valid_name c \<Longrightarrow> \<not> startswith c [sep]"
  by (auto simp: valid_name_def startswith_sep) (metis hd_in_set)

lemma join_startswith:
  assumes "valid_name c"
  shows "startswith (os_path_join a c) [sep] = startswith a [sep]"
proof -
  have c: "\<not> startswith c [sep]" "c \<noteq> []"
    using assms valid_not_startswith by (auto simp: valid_name_def)
  then have "hd c \<noteq> sep" by (simp add: startswith_sep)
  with c show ?thesis
    by (cases a) (auto simp: os_path_join_def startswith_sep)
qed

lemma foldl_join_startswith:
  "list_all valid_name cs \<Longrightarrow>
     startswith (foldl os_path_join a cs) [sep] = startswith a [sep]"
  by (induction cs arbitrary: a) (simp_all add: join_startswith)

lemma foldl_join_not_Nil:
  "cs \<noteq> [] \<Longrightarrow> list_all valid_name cs \<Longrightarrow> foldl os_path_join a cs \<noteq> []"
proof (induction cs arbitrary: a rule: rev_induct)
  case Nil
  then show ?case by simp
next
  case (snoc c cs)
  then have "valid_name c" by simp
  then show ?case
    by (auto simp: os_path_join_def valid_name_def)
qed

lemma join_prefix_slash:
  assumes "j \<noteq> []" "last j = sep" "valid_name c"
  shows "os_path_join (j @ a) c = j @ os_path_join a c"
  using assms valid_not_startswith [of c]
  by (cases "a = []") (auto simp: os_path_join_def endswith_sep)

lemma foldl_join_prefix_slash:
  "j \<noteq> [] \<Longrightarrow> last j = sep \<Longrightarrow> list_all valid_name cs \<Longrightarrow>
     foldl os_path_join (j @ a) cs = j @ foldl os_path_join a cs"
  by (induction cs arbitrary: a) (simp_all add: join_prefix_slash)

lemma abspath_below:
  assumes wd: "startswith wd [sep]" and cs: "list_all valid_name cs"
  shows "\<exists>p. startswith p [sep] \<and> os_path_abspath wd a = os_path_normpath p
            \<and> os_path_abspath wd (foldl os_path_join a cs)
                = os_path_normpath (foldl os_path_join p cs)"
proof (cases "startswith a [sep]")
  case True
  then show ?thesis
    using foldl_join_startswith [OF cs, of a]
    by (intro exI [of _ a]) (simp add: os_path_abspath_def os_path_isabs_def)
next
  case False
  let ?s = "foldl os_path_join a cs"
  have ns: "\<not> startswith ?s [sep]"
    using False foldl_join_startswith [OF cs, of a] by simp
  define j where "j = (if endswith wd [sep] then wd else wd @ [sep])"
  have j: "j \<noteq> []" "last j = sep"
    using wd by (auto simp: j_def endswith_sep startswith_sep)
  have join: "\<And>x. \<not> startswith x [sep] \<Longrightarrow> os_path_join wd x = j @ x"
    using wd by (auto simp: os_path_join_def j_def startswith_sep)
  have "os_path_abspath wd a = os_path_normpath (j @ a)"
    using False join by (simp add: os_path_abspath_def os_path_isabs_def)
  moreover have "os_path_abspath wd ?s = os_path_normpath (foldl os_path_join (j @ a) cs)"
    using ns join foldl_join_prefix_slash [OF j cs]
    by (simp add: os_path_abspath_def os_path_isabs_def)
  moreover have "startswith (j @ a) [sep]"
  proof -
    have "hd j = sep" using wd by (auto simp: j_def startswith_sep)
    then show ?thesis using j by (simp add: startswith_sep)
  qed
  ultimately show ?thesis by blast
qed

lemma relpath_below:
  assumes wd: "startswith wd [sep]" and cs: "list_all valid_name cs" and ne: "cs \<noteq> []"
  shows "os_path_relpath wd (foldl os_path_join a cs) a = Inr (join_on sep cs)"
proof -
  obtain p where p: "startswith p [sep]"
      and pa: "os_path_abspath wd a = os_path_normpath p"
      and ps: "os_path_abspath wd (foldl os_path_join a cs)
                = os_path_normpath (foldl os_path_join p cs)"
    using abspath_below [OF wd cs] by blast
  have p': "startswith (foldl os_path_join p cs) [sep]"
    using p foldl_join_startswith [OF cs] by simp
  have l1: "(let t = lstrip sep (os_path_abspath wd a)
             in if t \<noteq> [] then split_on sep t else []) = norm_comps (Suc 0) p"
    using relpath_list [OF p] pa by simp
  have l2: "(let t = lstrip sep (os_path_abspath wd (foldl os_path_join a cs))
             in if t \<noteq> [] then split_on sep t else []) = norm_comps (Suc 0) p @ cs"
    using relpath_list [OF p'] ps norm_comps_foldl_join [OF _ cs, of "Suc 0" p] by simp
  show ?thesis
    using l1 l2 ne foldl_join_not_Nil [OF ne cs, of a]
    by (simp add: os_path_relpath_def Let_def)
qed

lemma getcwd_abs: "startswith (os_getcwd fs) [sep]"
  by (simp add: os_getcwd_def startswith_def)

subsection \<open>\<open>os.path.splitext\<close> of a relative path that ends in \<open>.md\<close>\<close>

text \<open>
  \<open>strip_md p\<close> is \<open>p\<close> without its last three characters; a name has a dot stem
  when what precedes its \<open>.md\<close> is only dots (\<open>.md\<close>, \<open>..md\<close>, ...).
\<close>

definition strip_md :: "string \<Rightarrow> string" where
  "strip_md p = take (length p - 3) p"

definition dot_stem :: "string \<Rightarrow> bool" where
  "dot_stem b = list_all (\<lambda>c. c = extsep) (strip_md b)"

lemma rfind_last: "c \<notin> set ys \<Longrightarrow> rfind (xs @ c # ys) c = int (length xs)"
proof -
  assume "c \<notin> set ys"
  then have "takeWhile (\<lambda>x. x \<noteq> c) (rev ys @ c # rev xs) = rev ys"
    by (subst takeWhile_append2) auto
  then show ?thesis by (simp add: rfind_def Let_def)
qed

lemma rfind_none: "c \<notin> set s \<Longrightarrow> rfind s c = - 1"
proof -
  assume "c \<notin> set s"
  then have h: "takeWhile (\<lambda>x. x \<noteq> c) (rev s) = rev s"
    by (auto simp: takeWhile_eq_all_conv)
  show ?thesis by (simp add: rfind_def Let_def h)
qed

lemma endswith_md: "endswith b ''.md'' \<Longrightarrow> b = strip_md b @ ''.md''"
proof -
  assume a: "endswith b ''.md''"
  have "b = take (length b - 3) b @ drop (length b - 3) b" by simp
  moreover have "drop (length b - 3) b = ''.md''"
    using a by (simp add: endswith_def eval_nat_numeral)
  ultimately show ?thesis unfolding strip_md_def by simp
qed

lemma rfind_sep_prefix:
  assumes "pre = [] \<or> last pre = sep" and "sep \<notin> set b"
  shows "rfind (pre @ b) sep = int (length pre) - 1"
proof (cases "pre = []")
  case True
  then show ?thesis using assms by (simp add: rfind_none)
next
  case False
  then obtain q where q: "pre = q @ [sep]"
    using assms by (metis append_butlast_last_id)
  then have "rfind (pre @ b) sep = rfind (q @ sep # b) sep" by simp
  also have "\<dots> = int (length q)" using assms by (rule_tac rfind_last)
  finally show ?thesis using q by simp
qed

lemma splitext_md:
  assumes pre: "pre = [] \<or> last pre = sep" and s: "sep \<notin> set s"
  shows "os_path_splitext (pre @ s @ ''.md'') =
           (if list_all (\<lambda>c. c = extsep) s then (pre @ s @ ''.md'', []) else (pre @ s, ''.md''))"
proof -
  let ?p = "pre @ s @ ''.md''"
  have sepI: "rfind ?p sep = int (length pre) - 1"
    using rfind_sep_prefix [OF pre, of "s @ ''.md''"] s by simp
  have "rfind ((pre @ s) @ extsep # ''md'') extsep = int (length (pre @ s))"
    by (rule rfind_last) simp
  then have dotI: "rfind ?p extsep = int (length pre) + int (length s)" by simp
  have ex: "list_ex (\<lambda>c. c \<noteq> extsep) s \<longleftrightarrow> \<not> list_all (\<lambda>c. c = extsep) s"
    by (auto simp: list_ex_iff list_all_iff)
  show ?thesis
    unfolding os_path_splitext_def Let_def sepI dotI
    by (simp add: ex)
qed

lemma join_on_dir:
  "cs \<noteq> [] \<Longrightarrow> join_on sep cs = concat (map (\<lambda>d. d @ [sep]) (butlast cs)) @ last cs"
  by (induction sep cs rule: join_on.induct) auto

lemma dir_prefix_last:
  "concat (map (\<lambda>d. d @ [sep]) ds) = [] \<or> last (concat (map (\<lambda>d. d @ [sep]) ds)) = sep"
  by (cases ds rule: rev_cases) auto

lemma splitext_rel:
  assumes ne: "cs \<noteq> []" and v: "list_all valid_name cs" and md: "endswith (last cs) ''.md''"
  shows "fst (os_path_splitext (join_on sep cs)) =
           (if dot_stem (last cs) then join_on sep cs else strip_md (join_on sep cs))"
proof -
  let ?pre = "concat (map (\<lambda>d. d @ [sep]) (butlast cs))"
  let ?s = "strip_md (last cs)"
  have b: "last cs = ?s @ ''.md''" using md by (rule endswith_md)
  have "valid_name (last cs)" using ne v by (simp add: list_all_iff)
  then have "sep \<notin> set (last cs)" by (simp add: valid_name_def)
  then have s: "sep \<notin> set ?s" by (auto simp: strip_md_def dest: in_set_takeD)
  have rel: "join_on sep cs = ?pre @ ?s @ ''.md''"
    using join_on_dir [OF ne] b by simp
  have "strip_md (?pre @ ?s @ ''.md'') = ?pre @ ?s"
    by (simp add: strip_md_def)
  then show ?thesis
    using splitext_md [OF dir_prefix_last s, of "butlast cs"] rel
    by (simp add: dot_stem_def)
qed

text \<open>The stem is not empty and neither starts nor ends with a separator.\<close>

lemma join_on_clean:
  assumes ne: "cs \<noteq> []" and v: "list_all valid_name cs"
  shows "join_on sep cs \<noteq> [] \<and> hd (join_on sep cs) \<noteq> sep \<and> last (join_on sep cs) \<noteq> sep"
proof -
  have h: "valid_name (hd cs)" and l: "valid_name (last cs)"
    using ne v by (auto simp: list_all_iff)
  have "hd (hd cs) \<noteq> sep" using h by (metis hd_in_set valid_name_def)
  moreover have "last (last cs) \<noteq> sep" using l by (metis last_in_set valid_name_def)
  moreover have "last (join_on sep cs) = last (last cs)"
    using join_on_dir [OF ne] l by (simp add: valid_name_def)
  ultimately show ?thesis
    using join_on_hd [OF ne, of sep] h by (auto simp: valid_name_def)
qed

lemma stem_clean:
  assumes ne: "cs \<noteq> []" and v: "list_all valid_name cs" and md: "endswith (last cs) ''.md''"
  defines "stem \<equiv> fst (os_path_splitext (join_on sep cs))"
  shows "stem \<noteq> [] \<and> hd stem \<noteq> sep \<and> last stem \<noteq> sep"
proof (cases "dot_stem (last cs)")
  case True
  then show ?thesis
    using splitext_rel [OF ne v md] join_on_clean [OF ne v] by (simp add: stem_def)
next
  case False
  let ?pre = "concat (map (\<lambda>d. d @ [sep]) (butlast cs))"
  let ?s = "strip_md (last cs)"
  have b: "last cs = ?s @ ''.md''" using md by (rule endswith_md)
  have s: "?s \<noteq> []" using False by (auto simp: dot_stem_def)
  have "valid_name (last cs)" using ne v by (simp add: list_all_iff)
  then have "sep \<notin> set (last cs)" by (simp add: valid_name_def)
  then have "sep \<notin> set ?s" by (auto simp: strip_md_def dest: in_set_takeD)
  then have ls: "last ?s \<noteq> sep" using s by (metis last_in_set)
  have rel: "join_on sep cs = ?pre @ ?s @ ''.md''"
    using join_on_dir [OF ne] b by simp
  have "strip_md (?pre @ ?s @ ''.md'') = ?pre @ ?s" by (simp add: strip_md_def)
  then have st: "stem = ?pre @ ?s"
    using splitext_rel [OF ne v md] False rel by (simp add: stem_def)
  have "hd (?pre @ ?s) = hd (join_on sep cs)"
    using rel s by (cases ?pre) (auto simp: hd_append)
  then show ?thesis
    using st s ls join_on_clean [OF ne v] by simp
qed

text \<open>The two joins of the loop body.\<close>

lemma join_dest_stem:
  assumes "stem \<noteq> []" "hd stem \<noteq> sep"
  shows "os_path_join d stem = (if d = [] \<or> endswith d [sep] then d @ stem else d @ sep # stem)"
  using assms by (simp add: os_path_join_def startswith_sep)

lemma join_index:
  assumes "dir \<noteq> []" "last dir \<noteq> sep"
  shows "os_path_join dir ''index.md'' = dir @ ''/index.md''"
  using assms by (simp add: os_path_join_def startswith_def endswith_sep)

subsection \<open>The source tree\<close>

text \<open>
  A tree is valid when every directory lists valid names, each once. The files
  of a tree are named by their components relative to its root, here in the
  order of the walk.
\<close>

fun valid_tree :: "node \<Rightarrow> bool"
  and valid_entries :: "(string \<times> node) list \<Rightarrow> bool"
where
  "valid_tree File = True"
| "valid_tree (Dir es) = (distinct (map fst es) \<and> valid_entries es)"
| "valid_entries [] = True"
| "valid_entries ((n, t) # es) = (valid_name n \<and> valid_tree t \<and> valid_entries es)"

fun rel_files :: "node \<Rightarrow> string list list"
  and rel_files_in :: "(string \<times> node) list \<Rightarrow> string list list"
where
  "rel_files File = []"
| "rel_files (Dir es) = map (\<lambda>n. [n]) (filenames es) @ rel_files_in es"
| "rel_files_in [] = []"
| "rel_files_in ((n, File) # es) = rel_files_in es"
| "rel_files_in ((n, Dir sub) # es) = map ((#) n) (rel_files (Dir sub)) @ rel_files_in es"

subsection \<open>A run is the execution of a list of calls\<close>

definition perform :: "world \<Rightarrow> call list \<Rightarrow> run \<Rightarrow> run" where
  "perform w cs st = fold (call w) cs st"

text \<open>The calls of the loop body for the file with relative components \<open>cs\<close>.\<close>

definition page_calls :: "path \<Rightarrow> path \<Rightarrow> string list \<Rightarrow> call list" where
  "page_calls sdir ddir cs =
     (if endswith (last cs) ''.md'' then
        (let dest_dir = os_path_join ddir (fst (os_path_splitext (join_on sep cs)))
         in [Makedirs dest_dir,
             ConvertFile (foldl os_path_join sdir cs) (os_path_join dest_dir ''index.md'')
               ''source_repo''])
      else [])"

lemma perform_Nil [simp]: "perform w [] st = st"
  by (simp add: perform_def)

lemma perform_Cons [simp]: "perform w (c # cs) st = perform w cs (call w c st)"
  by (simp add: perform_def)

lemma perform_append: "perform w (xs @ ys) st = perform w ys (perform w xs st)"
  by (simp add: perform_def)

lemma convert_subpage_perform:
  assumes "list_all valid_name pre" "valid_name file"
  shows "convert_subpage w sdir ddir (foldl os_path_join sdir pre) file st =
           perform w (page_calls sdir ddir (pre @ [file])) st"
proof -
  have v: "list_all valid_name (pre @ [file])" using assms by simp
  have "os_path_relpath (os_getcwd (files st)) (foldl os_path_join sdir (pre @ [file])) sdir
          = Inr (join_on sep (pre @ [file]))"
    by (rule relpath_below [OF getcwd_abs v]) simp
  then show ?thesis
    by (simp add: convert_subpage_def page_calls_def Let_def)
qed

lemma files_loop_perform:
  assumes "list_all valid_name pre" "list_all valid_name fs"
  shows "fold (convert_subpage w sdir ddir (foldl os_path_join sdir pre)) fs st =
           perform w (concat (map (\<lambda>f. page_calls sdir ddir (pre @ [f])) fs)) st"
  using assms(2)
proof (induction fs arbitrary: st)
  case Nil
  then show ?case by simp
next
  case (Cons f fs)
  then show ?case
    using convert_subpage_perform [OF assms(1), of f]
    by (simp add: perform_append)
qed

lemma valid_entries_names: "valid_entries es \<Longrightarrow> list_all valid_name (map fst es)"
proof (induction es)
  case Nil
  then show ?case by simp
next
  case (Cons e es)
  then show ?case by (cases e) auto
qed

lemma valid_filenames: "valid_entries es \<Longrightarrow> list_all valid_name (filenames es)"
  using valid_entries_names [of es] by (auto simp: filenames_def list_all_iff)

lemma walk_perform:
  fixes w sdir ddir
  defines "body \<equiv> (\<lambda>(root, dirs, files). fold (convert_subpage w sdir ddir root) files)"
  shows "valid_tree t \<Longrightarrow> list_all valid_name pre \<Longrightarrow> top_dir = foldl os_path_join sdir pre \<Longrightarrow>
           fold body (os_walk top_dir t) st =
             perform w (concat (map (\<lambda>cs. page_calls sdir ddir (pre @ cs)) (rel_files t))) st"
    and "valid_entries es \<Longrightarrow> list_all valid_name pre \<Longrightarrow> top_dir = foldl os_path_join sdir pre \<Longrightarrow>
           fold body (walk_dirs top_dir es) st =
             perform w (concat (map (\<lambda>cs. page_calls sdir ddir (pre @ cs)) (rel_files_in es))) st"
proof (induction top_dir t and top_dir es arbitrary: pre st and pre st rule: os_walk_walk_dirs.induct)
  case (1 top_dir)
  then show ?case by simp
next
  case (2 top_dir es)
  have "fold (convert_subpage w sdir ddir (foldl os_path_join sdir pre)) (filenames es) st =
          perform w (concat (map (\<lambda>f. page_calls sdir ddir (pre @ [f])) (filenames es))) st"
    using "2.prems" by (intro files_loop_perform valid_filenames) simp_all
  moreover have "fold body (walk_dirs top_dir es) st' =
          perform w (concat (map (\<lambda>cs. page_calls sdir ddir (pre @ cs)) (rel_files_in es))) st'"
    for st'
    using "2.prems" by (intro "2.IH") simp_all
  ultimately show ?case
    using "2.prems"(3) by (simp add: body_def perform_append comp_def)
next
  case (3 top_dir)
  then show ?case by simp
next
  case (4 top_dir n es)
  then show ?case by simp
next
  case (5 top_dir n sub es)
  have v: "list_all valid_name (pre @ [n])" using "5.prems" by simp
  have "fold body (os_walk (os_path_join top_dir n) (Dir sub)) st =
          perform w (concat (map (\<lambda>cs. page_calls sdir ddir ((pre @ [n]) @ cs)) (rel_files (Dir sub)))) st"
    using "5.prems" by (intro "5.IH"(1) v) simp_all
  moreover have "fold body (walk_dirs top_dir es) st' =
          perform w (concat (map (\<lambda>cs. page_calls sdir ddir (pre @ cs)) (rel_files_in es))) st'"
    for st'
    using "5.prems" by (intro "5.IH"(2)) simp_all
  ultimately show ?case
    by (simp add: perform_append comp_def)
qed

subsection \<open>The calls of \<open>generate\<close>\<close>

text \<open>
  The tree found under the subpages folder, if there is one, is valid.
\<close>

definition valid_source :: "world \<Rightarrow> config \<Rightarrow> bool" where
  "valid_source w cfg =
     (case subpages_folder (content_mapping cfg) of
        None \<Rightarrow> True
      | Some folder \<Rightarrow>
          (case source_at w (''source_repo/'' @ folder) of
             None \<Rightarrow> True
           | Some t \<Rightarrow> valid_tree t))"

definition subpage_plan :: "world \<Rightarrow> config \<Rightarrow> call list" where
  "subpage_plan w cfg =
     (case subpages_folder (content_mapping cfg) of
        None \<Rightarrow> []
      | Some folder \<Rightarrow>
          if folder \<noteq> [] \<and> folder \<noteq> ''<none>'' then
            (case source_at w (''source_repo/'' @ folder) of
               None \<Rightarrow> []
             | Some t \<Rightarrow>
                 concat (map (page_calls (''source_repo/'' @ folder)
                                (destination_folder (content_mapping cfg)))
                           (rel_files t)))
          else [])"

definition before_pages :: "config \<Rightarrow> call list" where
  "before_pages cfg =
     [NewSourceFetcher (source_repository cfg),
      Fetch,
      Print (''Destination folder: '' @ destination_folder (content_mapping cfg)),
      NewJekyllSite (destination_folder (content_mapping cfg)) cfg,
      CreateStructure,
      NewConverter cfg,
      ConvertFile (''source_repo/'' @ home_page_source (content_mapping cfg))
        (destination_folder (content_mapping cfg) @ ''/index.md'') ''source_repo'']"

definition after_pages :: "config \<Rightarrow> call list" where
  "after_pages cfg =
     [NewAssetHandler cfg,
      CopyAssets ''source_repo''
        (destination_folder (content_mapping cfg) @ ''/''
           @ media_destination_folder (content_mapping cfg)),
      Echo ''Website generated successfully!'']"

definition plan :: "world \<Rightarrow> config \<Rightarrow> call list" where
  "plan w cfg = before_pages cfg @ subpage_plan w cfg @ after_pages cfg"

text \<open>
  The log that executing a list of calls adds: each call with the file system it
  is invoked on, up to the first call that raises.
\<close>

fun trace :: "world \<Rightarrow> call list \<Rightarrow> filesystem \<Rightarrow> (call \<times> filesystem) list" where
  "trace w [] fs = []"
| "trace w (c # cs) fs =
     (c, fs) # (case effect w c fs of (None, fs') \<Rightarrow> trace w cs fs' | (Some e, fs') \<Rightarrow> [])"

lemma convert_subpages_perform:
  assumes "valid_source w cfg"
  shows "convert_subpages w cfg st = perform w (subpage_plan w cfg) st"
proof (cases "subpages_folder (content_mapping cfg)")
  case None
  then show ?thesis by (simp add: convert_subpages_def subpage_plan_def)
next
  case (Some folder)
  show ?thesis
  proof (cases "source_at w (''source_repo/'' @ folder)")
    case None
    then show ?thesis using Some by (simp add: convert_subpages_def subpage_plan_def)
  next
    case (Some t)
    then have "valid_tree t"
      using assms \<open>subpages_folder (content_mapping cfg) = Some folder\<close>
      by (simp add: valid_source_def)
    from walk_perform(1) [OF this, of "[]" "''source_repo/'' @ folder" "''source_repo/'' @ folder"]
    show ?thesis
      using Some \<open>subpages_folder (content_mapping cfg) = Some folder\<close>
      by (simp add: convert_subpages_def subpage_plan_def Let_def)
  qed
qed

lemma generate_with_perform:
  assumes "valid_source w cfg"
  shows "generate_with w cfg st = perform w (plan w cfg) st"
  by (simp add: generate_with_def plan_def before_pages_def after_pages_def perform_append
      convert_subpages_perform [OF assms] Let_def)

lemma call_failed: "failed st \<noteq> None \<Longrightarrow> call w c st = st"
  by (simp add: call_def)

lemma perform_failed: "failed st \<noteq> None \<Longrightarrow> perform w cs st = st"
  by (induction cs) (simp_all add: call_failed)

lemma perform_log:
  "failed st = None \<Longrightarrow> log (perform w cs st) = log st @ trace w cs (files st)"
proof (induction cs arbitrary: st)
  case Nil
  then show ?case by simp
next
  case (Cons c cs)
  obtain e fs' where eff: "effect w c (files st) = (e, fs')"
    by (cases "effect w c (files st)")
  let ?st = "\<lparr>log = log st @ [(c, files st)], files = fs', failed = e\<rparr>"
  have st: "call w c st = ?st" using Cons.prems eff by (simp add: call_def)
  show ?case
  proof (cases e)
    case None
    then show ?thesis using Cons.IH [of ?st] st eff by simp
  next
    case (Some err)
    then show ?thesis using perform_failed [of ?st w cs] st eff by simp
  qed
qed

lemma perform_failed_flag:
  "failed st = None \<Longrightarrow> failed (perform w cs st) = None \<Longrightarrow> map fst (trace w cs (files st)) = cs"
proof (induction cs arbitrary: st)
  case Nil
  then show ?case by simp
next
  case (Cons c cs)
  obtain e fs' where eff: "effect w c (files st) = (e, fs')"
    by (cases "effect w c (files st)")
  let ?st = "\<lparr>log = log st @ [(c, files st)], files = fs', failed = e\<rparr>"
  have st: "call w c st = ?st" using Cons.prems eff by (simp add: call_def)
  show ?case
  proof (cases e)
    case None
    then show ?thesis using Cons.IH [of ?st] Cons.prems st eff by simp
  next
    case (Some err)
    then show ?thesis using perform_failed [of ?st w cs] Cons.prems st by simp
  qed
qed

lemma trace_prefix: "prefix (map fst (trace w cs fs)) cs"
  by (induction cs arbitrary: fs) (auto split: prod.splits option.splits)

lemma generate_log:
  assumes "load_config w p = Inr cfg" "valid_source w cfg"
  shows "log (generate w p fs) = (LoadConfig p, fs) # trace w (plan w cfg) fs"
  using assms by (simp add: generate_def generate_with_perform perform_log)

lemma generate_calls_prefix:
  assumes "load_config w p = Inr cfg" "valid_source w cfg"
  shows "prefix (calls (generate w p fs)) (LoadConfig p # plan w cfg)"
  using generate_log [OF assms] trace_prefix by (simp add: calls_def)

lemma generate_calls_complete:
  assumes "load_config w p = Inr cfg" "valid_source w cfg" "failed (generate w p fs) = None"
  shows "calls (generate w p fs) = LoadConfig p # plan w cfg"
proof -
  let ?st = "\<lparr>log = [(LoadConfig p, fs)], files = fs, failed = None\<rparr>"
  have "failed (perform w (plan w cfg) ?st) = None"
    using assms by (simp add: generate_def generate_with_perform)
  then have "map fst (trace w (plan w cfg) fs) = plan w cfg"
    using perform_failed_flag [of ?st w "plan w cfg"] by simp
  then show ?thesis using generate_log [OF assms(1,2)] by (simp add: calls_def)
qed

subsection \<open>Path resolution, \<open>os.mkdir\<close> and \<open>os.makedirs\<close>\<close>

lemma fold_lookup_Inl [simp]: "fold (lookup_step fs) xs (Inl e) = Inl e"
  by (induction xs) simp_all

lemma fold_lookup_prefix:
  "fold (lookup_step fs) (xs @ ys) s = Inr l \<Longrightarrow> \<exists>l'. fold (lookup_step fs) xs s = Inr l'"
  by (cases "fold (lookup_step fs) xs s") auto

lemma fold_lookup_empties:
  "kind_at fs l = Some Directory \<Longrightarrow> fold (lookup_step fs) (replicate k []) (Inr l) = Inr l"
  by (induction k) simp_all

lemma fold_lookup_kind:
  "fold (lookup_step fs) xs (Inr a) = Inr l \<Longrightarrow> kind_at fs a \<noteq> None \<Longrightarrow> kind_at fs l \<noteq> None"
proof (induction xs arbitrary: a)
  case Nil
  then show ?case by simp
next
  case (Cons x xs)
  show ?case
  proof (cases "lookup_step fs x (Inr a)")
    case (Inl e)
    then show ?thesis using Cons.prems by simp
  next
    case (Inr b)
    then have "kind_at fs b \<noteq> None" using Cons.prems(2) by (auto split: if_splits)
    then show ?thesis using Cons.IH [of b] Cons.prems(1) Inr by simp
  qed
qed

lemma split_on_replicate: "split_on c (replicate k c) = replicate (Suc k) []"
  by (induction k) simp_all

lemma split_on_trailing: "split_on c (s @ replicate k c) = split_on c s @ replicate k []"
proof (cases k)
  case 0
  then show ?thesis by simp
next
  case (Suc j)
  then show ?thesis
    using split_on_append_sep [of c s "replicate j c"] by (simp add: split_on_replicate)
qed

lemma strip_decomp:
  fixes a :: 'a
  defines "strip xs \<equiv> rev (dropWhile (\<lambda>x. x = a) (rev xs))"
  shows "\<exists>k. xs = strip xs @ replicate k a" and "strip xs = [] \<or> last (strip xs) \<noteq> a"
proof -
  let ?t = "takeWhile (\<lambda>x. x = a) (rev xs)"
  let ?d = "dropWhile (\<lambda>x. x = a) (rev xs)"
  have "rev xs = ?t @ ?d" by simp
  then have "xs = rev ?d @ rev ?t" by (metis rev_append rev_rev_ident)
  moreover have "?t = replicate (length ?t) a"
    by (rule replicate_eqI) (auto dest: set_takeWhileD)
  ultimately have "xs = strip xs @ replicate (length ?t) a"
    by (metis rev_replicate strip_def)
  then show "\<exists>k. xs = strip xs @ replicate k a" by blast
  show "strip xs = [] \<or> last (strip xs) \<noteq> a"
    using hd_dropWhile [of "\<lambda>x. x = a" "rev xs"] by (auto simp: strip_def last_rev)
qed

lemma split_raw:
  fixes p :: path
  defines "i \<equiv> nat (rfind p sep + 1)"
  shows "(take i p = [] \<or> last (take i p) = sep) \<and> sep \<notin> set (drop i p)"
proof -
  define r where "r = takeWhile (\<lambda>x. x \<noteq> sep) (rev p)"
  define d where "d = dropWhile (\<lambda>x. x \<noteq> sep) (rev p)"
  have rp: "rev p = r @ d" by (simp add: r_def d_def)
  then have p: "p = rev d @ rev r" by (metis rev_append rev_rev_ident)
  have len: "length p = length d + length r"
    unfolding p by simp
  have r: "sep \<notin> set r" by (auto simp: r_def dest: set_takeWhileD)
  have rf: "rfind p sep = (if length r = length p then - 1 else int (length p) - int (length r) - 1)"
    by (simp add: rfind_def Let_def r_def)
  show ?thesis
  proof (cases "d = []")
    case True
    then have "i = 0" using len rf by (simp add: i_def)
    moreover have "sep \<notin> set p" unfolding p using True r by simp
    ultimately show ?thesis by simp
  next
    case False
    then have "i = length (rev d)"
      using len rf by (simp add: i_def)
    then have "take i p = rev d" "drop i p = rev r"
      unfolding p by simp_all
    moreover have "hd d = sep"
      using hd_dropWhile [of "\<lambda>x. x \<noteq> sep" "rev p"] False by (simp add: d_def)
    ultimately show ?thesis using False r by (simp add: last_rev)
  qed
qed

lemma start_of_prefix: "h \<noteq> [] \<Longrightarrow> start_of fs (h @ r) = start_of fs h"
  by (cases h) (simp_all add: start_of_def startswith_def)

lemma resolve_slashes: "k \<noteq> 0 \<Longrightarrow> resolve fs (replicate k sep) = Inr []"
proof -
  assume k: "k \<noteq> 0"
  then have "start_of fs (replicate k sep) = Inr []"
    by (cases k) (simp_all add: start_of_def startswith_def)
  then show ?thesis
    using k fold_lookup_empties [of fs "[]" "Suc k"]
    by (simp add: resolve_def split_on_replicate kind_at_def del: replicate.simps)
qed

lemma resolve_rstrip:
  assumes "resolve fs p = Inr l" "rstrip sep p \<noteq> []"
  shows "\<exists>l'. resolve fs (rstrip sep p) = Inr l'"
proof -
  obtain k where k: "p = rstrip sep p @ replicate k sep"
    using strip_decomp(1) [of p sep] by (auto simp: rstrip_def)
  have "fold (lookup_step fs) (split_on sep (rstrip sep p) @ replicate k []) (start_of fs p) = Inr l"
    using assms k split_on_trailing [of sep "rstrip sep p" k] by (auto simp: resolve_def split: if_splits)
  then obtain l' where "fold (lookup_step fs) (split_on sep (rstrip sep p)) (start_of fs p) = Inr l'"
    using fold_lookup_prefix by blast
  moreover have "start_of fs p = start_of fs (rstrip sep p)"
    using start_of_prefix [OF assms(2)] k by metis
  ultimately show ?thesis using assms(2) by (simp add: resolve_def)
qed

lemma resolve_split_head:
  assumes res: "resolve fs p = Inr l" and sp: "os_path_split p = (h, t)" and h: "h \<noteq> []"
  shows "\<exists>l'. resolve fs h = Inr l'"
proof -
  let ?i = "nat (rfind p sep + 1)"
  let ?raw = "take ?i p"
  have t: "t = drop ?i p" and hh: "h = ?raw \<or> h = rstrip sep ?raw"
    using sp by (auto simp: os_path_split_def Let_def split: if_splits)
  have raw: "?raw \<noteq> []" using hh h by (auto simp: rstrip_def)
  then have lraw: "last ?raw = sep" and nt: "sep \<notin> set t"
    using split_raw [of p] t by auto
  obtain q where q: "?raw = q @ [sep]"
    using raw lraw by (metis append_butlast_last_id)
  have p: "p = q @ sep # t" using q t by (metis append.assoc append_Cons append_Nil append_take_drop_id)
  have sq: "split_on sep p = split_on sep q @ [t]"
    using p nt by (simp add: split_on_append_sep split_on_no_sep)
  have "fold (lookup_step fs) (split_on sep q @ [t]) (start_of fs p) = Inr l"
    using res sq by (auto simp: resolve_def split: if_splits)
  then obtain l1 where l1: "fold (lookup_step fs) (split_on sep q) (start_of fs p) = Inr l1"
    using fold_lookup_prefix by blast
  have sraw: "start_of fs p = start_of fs ?raw"
    using start_of_prefix [OF raw, of fs "drop ?i p"] by simp
  have "fold (lookup_step fs) (split_on sep ?raw) (start_of fs ?raw) \<noteq> Inl e" for e
  proof -
    have "split_on sep ?raw = split_on sep q @ [[]]"
      using q split_on_append_sep [of sep q "[]"] by simp
    moreover have "kind_at fs l1 \<noteq> Some Directory \<Longrightarrow> False"
    proof -
      assume "kind_at fs l1 \<noteq> Some Directory"
      then have "lookup_step fs t (Inr l1) = Inl NotADirectoryError" by simp
      then show False
        using \<open>fold (lookup_step fs) (split_on sep q @ [t]) (start_of fs p) = Inr l\<close> l1 by simp
    qed
    ultimately show ?thesis using l1 sraw by auto
  qed
  then obtain l2 where "fold (lookup_step fs) (split_on sep ?raw) (start_of fs ?raw) = Inr l2"
    by (cases "fold (lookup_step fs) (split_on sep ?raw) (start_of fs ?raw)") auto
  then have rraw: "resolve fs ?raw = Inr l2" using raw by (simp add: resolve_def)
  from hh show ?thesis
  proof
    assume "h = ?raw"
    then show ?thesis using rraw by simp
  next
    assume "h = rstrip sep ?raw"
    then show ?thesis using resolve_rstrip [OF rraw] h by simp
  qed
qed

lemma os_path_split_Nil: "os_path_split [] = ([], [])"
  by (simp add: os_path_split_def rfind_def)

lemma resolve_makedirs_head:
  assumes "resolve fs name = Inr l" "makedirs_split name = (head, tail)" "head \<noteq> []"
  shows "os_path_exists fs head"
proof -
  obtain h0 t0 where s0: "os_path_split name = (h0, t0)"
    by (cases "os_path_split name")
  have "\<exists>l'. resolve fs head = Inr l'"
  proof (cases "t0 = []")
    case False
    then have "os_path_split name = (head, tail)"
      using assms(2) s0 by (simp add: makedirs_split_def)
    then show ?thesis using resolve_split_head [OF assms(1)] assms(3) by blast
  next
    case True
    then have s1: "os_path_split h0 = (head, tail)"
      using assms(2) s0 by (simp add: makedirs_split_def)
    then have "h0 \<noteq> []" using assms(3) by (auto simp: os_path_split_Nil)
    then obtain l0 where "resolve fs h0 = Inr l0"
      using resolve_split_head [OF assms(1) s0] by blast
    then show ?thesis using resolve_split_head [OF _ s1 assms(3)] by blast
  qed
  then show ?thesis by (auto simp: os_path_exists_def)
qed

lemma split_on_strip:
  fixes p :: path
  defines "cs \<equiv> rev (dropWhile (\<lambda>c. c = []) (rev (split_on sep p)))"
  shows "\<exists>k. split_on sep p = cs @ replicate k []" and "cs = [] \<or> last cs \<noteq> []"
  unfolding cs_def by (rule strip_decomp(1), rule strip_decomp(2))

lemma mkdir_existing:
  assumes "resolve fs p = Inr l"
  shows "\<exists>e. os_mkdir fs p = Inl e"
proof -
  define cs where "cs = rev (dropWhile (\<lambda>c. c = []) (rev (split_on sep p)))"
  obtain k where k: "split_on sep p = cs @ replicate k []"
    using split_on_strip(1) [of p, folded cs_def] by blast
  have p: "p \<noteq> []" using assms by (auto simp: resolve_def)
  have f: "fold (lookup_step fs) (cs @ replicate k []) (start_of fs p) = Inr l"
    using assms p k by (simp add: resolve_def)
  show ?thesis
  proof (cases "cs = []")
    case True
    then show ?thesis using p by (simp add: os_mkdir_def cs_def [symmetric])
  next
    case False
    then have n: "last cs \<noteq> []" using split_on_strip(2) [of p, folded cs_def] by blast
    obtain l2 where l2: "fold (lookup_step fs) cs (start_of fs p) = Inr l2"
      using fold_lookup_prefix [OF f] by blast
    have "fold (lookup_step fs) (butlast cs @ [last cs]) (start_of fs p) = Inr l2"
      using l2 False by simp
    then have step: "lookup_step fs (last cs) (fold (lookup_step fs) (butlast cs) (start_of fs p)) = Inr l2"
      by simp
    show ?thesis
    proof (cases "fold (lookup_step fs) (butlast cs) (start_of fs p)")
      case (Inl e)
      then show ?thesis using p False by (simp add: os_mkdir_def cs_def [symmetric])
    next
      case (Inr l1)
      then have "lookup_step fs (last cs) (Inr l1) = Inr l2" using step by simp
      then have "kind_at fs l1 \<noteq> Some Directory \<or> last cs = ''.'' \<or> last cs = ''..''
                  \<or> kind_at fs (l1 @ [last cs]) \<noteq> None"
        using n by (auto split: if_splits)
      then show ?thesis
        using p False Inr by (auto simp: os_mkdir_def cs_def [symmetric])
    qed
  qed
qed

lemma makedirs_existing:
  assumes "os_path_isdir fs name"
  shows "os_makedirs fs name True = (None, fs)"
proof -
  obtain l where l: "resolve fs name = Inr l"
    using assms by (auto simp: os_path_isdir_def split: sum.splits)
  obtain e where e: "os_mkdir fs name = Inl e"
    using mkdir_existing [OF l] by blast
  have leaf: "makedirs_leaf fs name True = (None, fs)"
    using e assms by (simp add: makedirs_leaf_def)
  obtain head tail where ht: "makedirs_split name = (head, tail)"
    by (cases "makedirs_split name")
  have "head \<noteq> [] \<Longrightarrow> os_path_exists fs head"
    using resolve_makedirs_head [OF l ht] .
  then show ?thesis
    using ht leaf by (subst os_makedirs.simps) auto
qed

lemma fold_lookup_mono:
  assumes mono: "\<And>x k. kind_at fs x = Some k \<Longrightarrow> kind_at fs' x = Some k"
  shows "fold (lookup_step fs) xs (Inr a) = Inr b \<Longrightarrow> fold (lookup_step fs') xs (Inr a) = Inr b"
proof (induction xs arbitrary: a)
  case Nil
  then show ?case by simp
next
  case (Cons x xs)
  show ?case
  proof (cases "lookup_step fs x (Inr a)")
    case (Inl e)
    then show ?thesis using Cons.prems by simp
  next
    case (Inr a')
    have "lookup_step fs' x (Inr a) = Inr a'"
    proof -
      have d: "kind_at fs a = Some Directory" using Inr by (auto split: if_splits)
      then have d': "kind_at fs' a = Some Directory" by (rule mono)
      show ?thesis
      proof (cases "x = [] \<or> x = ''.''")
        case True
        then show ?thesis using Inr d d' by auto
      next
        case False
        show ?thesis
        proof (cases "x = ''..''")
          case True
          then have "kind_at fs (butlast a) = Some Directory" "a' = butlast a"
            using Inr d by (auto split: if_splits)
          then show ?thesis using True d' mono [of "butlast a" Directory] by simp
        next
          case nd: False
          then have "kind_at fs (a @ [x]) \<noteq> None" "a' = a @ [x]"
            using Inr d False by (auto split: if_splits)
          then show ?thesis using nd False d' mono [of "a @ [x]"] by auto
        qed
      qed
    qed
    then show ?thesis using Cons.IH [of a'] Cons.prems Inr by simp
  qed
qed

lemma mkdir_creates:
  assumes "os_mkdir fs p = Inr fs'"
  shows "os_path_isdir fs' p"
proof -
  define cs where "cs = rev (dropWhile (\<lambda>c. c = []) (rev (split_on sep p)))"
  obtain k where k: "split_on sep p = cs @ replicate k []"
    using split_on_strip(1) [of p, folded cs_def] by blast
  have p: "p \<noteq> []" and cs: "cs \<noteq> []"
    using assms by (auto simp: os_mkdir_def cs_def [symmetric] Let_def split: if_splits)
  have n: "last cs \<noteq> []" using split_on_strip(2) [of p, folded cs_def] cs by blast
  obtain l where l: "fold (lookup_step fs) (butlast cs) (start_of fs p) = Inr l"
    using assms p cs
    by (cases "fold (lookup_step fs) (butlast cs) (start_of fs p)")
       (auto simp: os_mkdir_def cs_def [symmetric])
  have facts: "kind_at fs l = Some Directory" "last cs \<noteq> ''.''" "last cs \<noteq> ''..''"
      "kind_at fs (l @ [last cs]) = None"
      "fs' = fs\<lparr>kinds := (kinds fs)(l @ [last cs] \<mapsto> Directory)\<rparr>"
    using assms p cs l by (auto simp: os_mkdir_def cs_def [symmetric] split: if_splits)
  have mono: "kind_at fs' x = Some k'" if "kind_at fs x = Some k'" for x k'
    using that facts(4,5) by (auto simp: kind_at_def split: if_splits)
  have new: "kind_at fs' (l @ [last cs]) = Some Directory"
    using facts(5) by (simp add: kind_at_def)
  have start: "start_of fs' p = start_of fs p"
    using facts(5) by (simp add: start_of_def)
  obtain s where s: "start_of fs p = Inr s" by (simp add: start_of_def)
  have "fold (lookup_step fs') (butlast cs) (Inr s) = Inr l"
    using fold_lookup_mono [of fs fs', OF mono] l s by simp
  moreover have "lookup_step fs' (last cs) (Inr l) = Inr (l @ [last cs])"
    using facts(1,2,3) n new mono by simp
  ultimately have "fold (lookup_step fs') (butlast cs @ [last cs]) (Inr s) = Inr (l @ [last cs])"
    by simp
  then have "fold (lookup_step fs') cs (Inr s) = Inr (l @ [last cs])"
    using cs by simp
  then have "resolve fs' p = Inr (l @ [last cs])"
    using p k start s fold_lookup_empties [OF new, of k] by (simp add: resolve_def)
  then show ?thesis using new by (simp add: os_path_isdir_def)
qed

lemma makedirs_leaf_isdir:
  assumes "makedirs_leaf fs name True = (None, fs')"
  shows "os_path_isdir fs' name"
proof (cases "os_mkdir fs name")
  case (Inl e)
  then show ?thesis using assms by (simp add: makedirs_leaf_def split: if_splits)
next
  case (Inr fs2)
  then show ?thesis using assms mkdir_creates [OF Inr] by (simp add: makedirs_leaf_def)
qed

lemma makedirs_creates:
  assumes "snd (makedirs_split name) \<noteq> ''.''" "os_makedirs fs name True = (None, fs')"
  shows "os_path_isdir fs' name"
proof -
  obtain head tail where ht: "makedirs_split name = (head, tail)"
    by (cases "makedirs_split name")
  have "\<exists>fs1. makedirs_leaf fs1 name True = (None, fs')"
    using assms ht
    by (subst (asm) os_makedirs.simps) (auto split: if_splits prod.splits option.splits)
  then show ?thesis using makedirs_leaf_isdir by blast
qed

subsection \<open>Views of a run used by the claims\<close>

text \<open>
  The step of the run a call belongs to: loading the configuration, fetching the
  source, creating the destination layout, converting pages, copying assets,
  reporting.
\<close>

fun stage :: "call \<Rightarrow> nat" where
  "stage (LoadConfig p) = 0"
| "stage (NewSourceFetcher r) = 1"
| "stage Fetch = 1"
| "stage (Print s) = 2"
| "stage (NewJekyllSite d c) = 2"
| "stage CreateStructure = 2"
| "stage (NewConverter c) = 3"
| "stage (ConvertFile s d b) = 3"
| "stage (Makedirs d) = 3"
| "stage (NewAssetHandler c) = 4"
| "stage (CopyAssets s m) = 4"
| "stage (Echo s) = 5"

text \<open>The page conversions that the subpage step makes when nothing raises.\<close>

definition subpage_conversions :: "world \<Rightarrow> config \<Rightarrow> (path \<times> path) list" where
  "subpage_conversions w cfg = concat (map conversion_of (subpage_plan w cfg))"

fun asset_copy_of :: "call \<Rightarrow> (path \<times> path) list" where
  "asset_copy_of (CopyAssets s m) = [(s, m)]"
| "asset_copy_of _ = []"

definition asset_copies :: "run \<Rightarrow> (path \<times> path) list" where
  "asset_copies st = concat (map asset_copy_of (calls st))"

text \<open>Example: a site with two pages, one of them in a folder.\<close>

definition example_cfg :: config where
  "example_cfg =
     \<lparr>source_repository = ''https://github.com/fonte-wiki/Backup-fonte-wiki'',
      content_mapping =
        \<lparr>home_page_source = ''home.md'', subpages_folder = Some ''pages'',
         destination_folder = ''site'', media_destination_folder = ''assets/media''\<rparr>\<rparr>"

definition example_tree :: node where
  "example_tree =
     Dir [(''b.md'', File),
          (''a'', Dir [(''c.md'', File), (''x.MD'', File)]),
          (''a.md'', File),
          (''notes.txt'', File)]"

text \<open>
  The collaborators of a quiet world never raise and leave the directories as
  they are; the folder of the given name under \<open>source_repo\<close> holds the given
  tree, and nothing else is found.
\<close>

definition quiet_world :: "config \<Rightarrow> string \<Rightarrow> node \<Rightarrow> world" where
  "quiet_world cfg folder t =
     \<lparr>load_config = (\<lambda>p. Inr cfg),
      source_at = (\<lambda>p. if p = ''source_repo/'' @ folder then Some t else None),
      external = (\<lambda>c fs. (None, fs))\<rparr>"

text \<open>A file system with the given directories, the current directory \<open>/work\<close>.\<close>

definition dirs_fs :: "location list \<Rightarrow> filesystem" where
  "dirs_fs ds = \<lparr>cwd = [''work''], kinds = (\<lambda>l. if l \<in> set ds then Some Directory else None)\<rparr>"

definition example_fs :: filesystem where
  "example_fs =
     dirs_fs [[''work''], [''work'', ''site''], [''work'', ''site'', ''a''],
              [''work'', ''site'', ''b''], [''work'', ''site'', ''a'', ''c'']]"

subsection \<open>Runs that skip the subpage step\<close>

lemma generate_with_skip:
  assumes "\<And>st. convert_subpages w cfg st = st"
  shows "generate_with w cfg st = perform w (before_pages cfg @ after_pages cfg) st"
  by (simp add: generate_with_def before_pages_def after_pages_def assms Let_def)

lemma perform_calls_prefix:
  "failed st = None \<Longrightarrow> prefix (calls (perform w cs st)) (calls st @ cs)"
  using trace_prefix [of w cs "files st"] by (simp add: calls_def perform_log)

lemma perform_unchanged:
  assumes "failed st = None" "\<And>c. c \<in> set cs \<Longrightarrow> effect w c (files st) = (None, files st)"
  shows "perform w cs st =
           \<lparr>log = log st @ map (\<lambda>c. (c, files st)) cs, files = files st, failed = None\<rparr>"
  using assms
proof (induction cs arbitrary: st)
  case Nil
  then show ?case by simp
next
  case (Cons c cs)
  let ?st = "\<lparr>log = log st @ [(c, files st)], files = files st, failed = None\<rparr>"
  have "call w c st = ?st" using Cons.prems by (simp add: call_def)
  then show ?case using Cons.IH [of ?st] Cons.prems by simp
qed

lemma generate_skip_calls:
  assumes "load_config w p = Inr cfg" "\<And>st. convert_subpages w cfg st = st"
  shows "prefix (calls (generate w p fs)) (LoadConfig p # before_pages cfg @ after_pages cfg)"
  using perform_calls_prefix [of "\<lparr>log = [(LoadConfig p, fs)], files = fs, failed = None\<rparr>" w]
  by (simp add: generate_def assms(1) generate_with_skip [OF assms(2)] calls_def)

subsection \<open>C8: the literal \<open><none>\<close>\<close>

definition none_cfg :: config where
  "none_cfg =
     \<lparr>source_repository = ''https://github.com/fonte-wiki/Backup-fonte-wiki'',
      content_mapping =
        \<lparr>home_page_source = ''home.md'', subpages_folder = Some ''<none>'',
         destination_folder = ''site'', media_destination_folder = ''assets/media''\<rparr>\<rparr>"

text \<open>
  C8. When the configured subpages folder is the literal string \<open><none>\<close>, the
  subpage step does nothing, exactly as when no folder is configured, whatever is
  found at \<open>source_repo/<none>\<close>: the run state is unchanged, and the calls of the
  run are an initial segment of the calls before the pages followed by the calls
  after them.
\<close>

theorem C8_none_literal_skips:
  assumes "load_config w p = Inr cfg"
    and "subpages_folder (content_mapping cfg) = Some ''<none>''"
  shows "convert_subpages w cfg st = st
       \<and> convert_subpages w
            (cfg\<lparr>content_mapping := (content_mapping cfg)\<lparr>subpages_folder := None\<rparr>\<rparr>) st = st
       \<and> prefix (calls (generate w p fs)) (LoadConfig p # before_pages cfg @ after_pages cfg)"
proof -
  have skip: "convert_subpages w cfg st' = st'" for st'
    using assms(2) by (simp add: convert_subpages_def)
  moreover have "convert_subpages w
      (cfg\<lparr>content_mapping := (content_mapping cfg)\<lparr>subpages_folder := None\<rparr>\<rparr>) st = st"
    by (simp add: convert_subpages_def)
  ultimately show ?thesis
    using generate_skip_calls [OF assms(1), of fs] by simp
qed

theorem C8_none_literal_skips_witness:
  "source_at (quiet_world none_cfg ''<none>'' example_tree) ''source_repo/<none>'' = Some example_tree
   \<and> subpages_folder (content_mapping none_cfg) = Some ''<none>''
   \<and> convert_subpages (quiet_world none_cfg ''<none>'' example_tree) none_cfg
        \<lparr>log = [], files = example_fs, failed = None\<rparr>
        = \<lparr>log = [], files = example_fs, failed = None\<rparr>
   \<and> prefix (calls (generate (quiet_world none_cfg ''<none>'' example_tree) ''config.yml'' example_fs))
        (LoadConfig ''config.yml'' # before_pages none_cfg @ after_pages none_cfg)"
proof -
  have l: "load_config (quiet_world none_cfg ''<none>'' example_tree) ''config.yml'' = Inr none_cfg"
    by (simp add: quiet_world_def)
  have s: "subpages_folder (content_mapping none_cfg) = Some ''<none>''"
    by (simp add: none_cfg_def)
  have "source_at (quiet_world none_cfg ''<none>'' example_tree) ''source_repo/<none>'' = Some example_tree"
    by (simp add: quiet_world_def)
  then show ?thesis
    using C8_none_literal_skips [OF l s, of "\<lparr>log = [], files = example_fs, failed = None\<rparr>" example_fs] s
    by simp
qed

subsection \<open>Runs in which no call raises or changes the directories\<close>

lemma effect_quiet:
  assumes "external w = (\<lambda>c fs. (None, fs))" "\<And>d. c = Makedirs d \<Longrightarrow> os_path_isdir fs d"
  shows "effect w c fs = (None, fs)"
  using assms by (cases c) (simp_all add: effect_def makedirs_existing)

lemma generate_unchanged:
  assumes l: "load_config w p = Inr cfg" and v: "valid_source w cfg"
    and q: "external w = (\<lambda>c fs. (None, fs))"
    and d: "\<And>d. Makedirs d \<in> set (subpage_plan w cfg) \<Longrightarrow> os_path_isdir fs d"
  shows "generate w p fs =
           \<lparr>log = map (\<lambda>c. (c, fs)) (LoadConfig p # plan w cfg), files = fs, failed = None\<rparr>"
proof -
  have "effect w c fs = (None, fs)" if "c \<in> set (plan w cfg)" for c
  proof (rule effect_quiet [OF q])
    fix dir assume "c = Makedirs dir"
    then have "Makedirs dir \<in> set (subpage_plan w cfg)"
      using that by (auto simp: plan_def before_pages_def after_pages_def)
    then show "os_path_isdir fs dir" by (rule d)
  qed
  then show ?thesis
    using perform_unchanged [of "\<lparr>log = [(LoadConfig p, fs)], files = fs, failed = None\<rparr>" "plan w cfg" w]
    by (simp add: generate_def l generate_with_perform [OF v])
qed

lemmas path_eval = os_path_join_def os_path_splitext_def rfind_def startswith_def endswith_def Let_def

lemmas fs_eval = os_path_isdir_def resolve_def start_of_def kind_at_def dirs_fs_def startswith_def

lemma example_valid: "valid_source (quiet_world example_cfg ''pages'' example_tree) example_cfg"
  by (simp add: valid_source_def quiet_world_def example_cfg_def example_tree_def valid_name_def)

lemma example_subpage_plan:
  "subpage_plan (quiet_world example_cfg ''pages'' example_tree) example_cfg =
     [Makedirs ''site/b'',
      ConvertFile ''source_repo/pages/b.md'' ''site/b/index.md'' ''source_repo'',
      Makedirs ''site/a'',
      ConvertFile ''source_repo/pages/a.md'' ''site/a/index.md'' ''source_repo'',
      Makedirs ''site/a/c'',
      ConvertFile ''source_repo/pages/a/c.md'' ''site/a/c/index.md'' ''source_repo'']"
  by (simp add: subpage_plan_def quiet_world_def example_cfg_def example_tree_def
      filenames_def page_calls_def path_eval)

lemma example_dirs:
  "os_path_isdir example_fs ''site/b''"
  "os_path_isdir example_fs ''site/a''"
  "os_path_isdir example_fs ''site/a/c''"
  by (simp_all add: example_fs_def fs_eval)

lemma example_run:
  "generate (quiet_world example_cfg ''pages'' example_tree) ''config.yml'' example_fs =
     \<lparr>log = map (\<lambda>c. (c, example_fs))
              (LoadConfig ''config.yml'' # plan (quiet_world example_cfg ''pages'' example_tree) example_cfg),
      files = example_fs, failed = None\<rparr>"
proof (rule generate_unchanged [OF _ example_valid])
  show "load_config (quiet_world example_cfg ''pages'' example_tree) ''config.yml'' = Inr example_cfg"
    by (simp add: quiet_world_def)
  show "external (quiet_world example_cfg ''pages'' example_tree) = (\<lambda>c fs. (None, fs))"
    by (simp add: quiet_world_def)
  show "os_path_isdir example_fs d"
    if "Makedirs d \<in> set (subpage_plan (quiet_world example_cfg ''pages'' example_tree) example_cfg)" for d
    using that example_dirs unfolding example_subpage_plan by auto
qed

subsection \<open>The order of the calls\<close>

lemma prefix_concat_map: "prefix xs ys \<Longrightarrow> prefix (concat (map f xs)) (concat (map f ys))"
  by (auto simp: prefix_def)

lemma prefix_sorted: "prefix xs ys \<Longrightarrow> sorted (map f ys) \<Longrightarrow> sorted (map f xs)"
  by (auto simp: prefix_def sorted_append)

lemma page_calls_cases:
  "page_calls sdir ddir cs = [] \<or>
     (\<exists>d s. page_calls sdir ddir cs =
        [Makedirs d, ConvertFile s (os_path_join d ''index.md'') ''source_repo''])"
  by (simp add: page_calls_def Let_def)

lemma subpage_plan_cases:
  "subpage_plan w cfg = [] \<or>
     (\<exists>sdir ddir files. subpage_plan w cfg = concat (map (page_calls sdir ddir) files))"
  by (simp add: subpage_plan_def split: option.split) blast

lemma page_calls_shape:
  assumes "c \<in> set (page_calls sdir ddir cs)"
  shows "(\<exists>d. c = Makedirs d) \<or> (\<exists>s d. c = ConvertFile s d ''source_repo'')"
  using page_calls_cases [of sdir ddir cs] assms by auto

lemma subpage_plan_shape:
  assumes "c \<in> set (subpage_plan w cfg)"
  shows "(\<exists>d. c = Makedirs d) \<or> (\<exists>s d. c = ConvertFile s d ''source_repo'')"
proof -
  obtain sdir ddir files where "subpage_plan w cfg = concat (map (page_calls sdir ddir) files)"
    using subpage_plan_cases [of w cfg] assms by auto
  then obtain cs where "c \<in> set (page_calls sdir ddir cs)"
    using assms by auto
  then show ?thesis by (rule page_calls_shape)
qed

lemma subpage_plan_stage: "c \<in> set (subpage_plan w cfg) \<Longrightarrow> stage c = 3"
  using subpage_plan_shape [of c w cfg] by auto

lemma sorted_const: "(\<And>x. x \<in> set xs \<Longrightarrow> f x = k) \<Longrightarrow> sorted (map f xs)"
  by (induction xs) auto

lemma plan_sorted: "sorted (map stage (LoadConfig p # plan w cfg))"
proof -
  have "sorted (map stage (subpage_plan w cfg))"
    by (rule sorted_const [of _ _ 3]) (rule subpage_plan_stage)
  then show ?thesis
    by (auto simp: plan_def before_pages_def after_pages_def sorted_append
        dest: subpage_plan_stage)
qed

lemma plan_conversions:
  "concat (map conversion_of (LoadConfig p # plan w cfg)) =
     (''source_repo/'' @ home_page_source (content_mapping cfg),
      destination_folder (content_mapping cfg) @ ''/index.md'') # subpage_conversions w cfg"
  by (simp add: plan_def before_pages_def after_pages_def subpage_conversions_def)

lemma plan_asset_copies:
  "concat (map asset_copy_of (LoadConfig p # plan w cfg)) =
     [(''source_repo'',
       destination_folder (content_mapping cfg) @ ''/''
         @ media_destination_folder (content_mapping cfg))]"
proof -
  have "asset_copy_of c = []" if "c \<in> set (subpage_plan w cfg)" for c
    using subpage_plan_shape [OF that] by auto
  then have "concat (map asset_copy_of (subpage_plan w cfg)) = []" by simp
  then show ?thesis
    by (simp add: plan_def before_pages_def after_pages_def)
qed

text \<open>
  C3. In every run the page conversions are an initial segment of: the home page,
  converted from \<open>source_repo/<home page source>\<close> to
  \<open><destination folder>/index.md\<close>, then the conversions of the subpage step.
  The home page is thus converted before any subpage, and straight into the
  destination root.
\<close>

theorem C3_home_page_first:
  assumes "load_config w p = Inr cfg" and "valid_source w cfg"
  shows "prefix (conversions (generate w p fs))
           ((''source_repo/'' @ home_page_source (content_mapping cfg),
             destination_folder (content_mapping cfg) @ ''/index.md'')
            # subpage_conversions w cfg)"
  using prefix_concat_map [OF generate_calls_prefix [OF assms], of conversion_of fs]
  unfolding plan_conversions conversions_def .

theorem C3_home_page_first_witness:
  "conversions (generate (quiet_world example_cfg ''pages'' example_tree) ''config.yml'' example_fs)
     = [(''source_repo/home.md'', ''site/index.md''),
        (''source_repo/pages/b.md'', ''site/b/index.md''),
        (''source_repo/pages/a.md'', ''site/a/index.md''),
        (''source_repo/pages/a/c.md'', ''site/a/c/index.md'')]
   \<and> prefix (conversions (generate (quiet_world example_cfg ''pages'' example_tree) ''config.yml'' example_fs))
        ((''source_repo/'' @ home_page_source (content_mapping example_cfg),
          destination_folder (content_mapping example_cfg) @ ''/index.md'')
         # subpage_conversions (quiet_world example_cfg ''pages'' example_tree) example_cfg)"
proof -
  have l: "load_config (quiet_world example_cfg ''pages'' example_tree) ''config.yml'' = Inr example_cfg"
    by (simp add: quiet_world_def)
  have "conversions (generate (quiet_world example_cfg ''pages'' example_tree) ''config.yml'' example_fs)
     = [(''source_repo/home.md'', ''site/index.md''),
        (''source_repo/pages/b.md'', ''site/b/index.md''),
        (''source_repo/pages/a.md'', ''site/a/index.md''),
        (''source_repo/pages/a/c.md'', ''site/a/c/index.md'')]"
    unfolding example_run conversions_def calls_def
    by (simp add: plan_def before_pages_def after_pages_def example_subpage_plan comp_def)
       (simp add: example_cfg_def)
  then show ?thesis
    using C3_home_page_first [OF l example_valid, of example_fs] by simp
qed

text \<open>
  C4. In every run the calls are an initial segment of: the configuration load;
  the fetch of the source; the creation of the destination layout; the
  conversion of the home page; the calls of the subpage step; the copy of the
  assets; the final message. Their stages never decrease: no asset copy before
  a page conversion, no layout creation after one.
\<close>

theorem C4_fixed_order:
  assumes "load_config w p = Inr cfg" and "valid_source w cfg"
  shows "prefix (calls (generate w p fs))
           (LoadConfig p # before_pages cfg @ subpage_plan w cfg @ after_pages cfg)
       \<and> sorted (map stage (calls (generate w p fs)))"
  using generate_calls_prefix [OF assms, of fs]
    prefix_sorted [OF generate_calls_prefix [OF assms, of fs] plan_sorted]
  by (simp add: plan_def)

theorem C4_fixed_order_witness:
  "map stage (calls (generate (quiet_world example_cfg ''pages'' example_tree) ''config.yml'' example_fs))
     = [0, 1, 1, 2, 2, 2, 3, 3, 3, 3, 3, 3, 3, 3, 4, 4, 5]
   \<and> sorted (map stage
        (calls (generate (quiet_world example_cfg ''pages'' example_tree) ''config.yml'' example_fs)))"
proof -
  have l: "load_config (quiet_world example_cfg ''pages'' example_tree) ''config.yml'' = Inr example_cfg"
    by (simp add: quiet_world_def)
  have "map stage (calls (generate (quiet_world example_cfg ''pages'' example_tree) ''config.yml'' example_fs))
     = [0, 1, 1, 2, 2, 2, 3, 3, 3, 3, 3, 3, 3, 3, 4, 4, 5]"
    unfolding example_run calls_def
    by (simp add: plan_def before_pages_def after_pages_def example_subpage_plan comp_def)
  then show ?thesis
    using C4_fixed_order [OF l example_valid, of example_fs] by simp
qed

subsection \<open>C5: a missing subpages folder\<close>

text \<open>
  No subpages folder is configured, or the configured folder is not found under
  \<open>source_repo\<close>.
\<close>

definition subpages_missing :: "world \<Rightarrow> config \<Rightarrow> bool" where
  "subpages_missing w cfg =
     (case subpages_folder (content_mapping cfg) of
        None \<Rightarrow> True
      | Some folder \<Rightarrow> source_at w (''source_repo/'' @ folder) = None)"

definition unset_cfg :: config where
  "unset_cfg =
     \<lparr>source_repository = ''https://github.com/fonte-wiki/Backup-fonte-wiki'',
      content_mapping =
        \<lparr>home_page_source = ''home.md'', subpages_folder = None,
         destination_folder = ''site'', media_destination_folder = ''assets/media''\<rparr>\<rparr>"

lemma perform_no_raise:
  assumes "failed st = None" "\<And>c f. c \<in> set cs \<Longrightarrow> fst (effect w c f) = None"
  shows "failed (perform w cs st) = None \<and> calls (perform w cs st) = calls st @ cs"
  using assms
proof (induction cs arbitrary: st)
  case Nil
  then show ?case by simp
next
  case (Cons c cs)
  obtain e fs' where eff: "effect w c (files st) = (e, fs')"
    by (cases "effect w c (files st)")
  then have "e = None" using Cons.prems(2) [of c "files st"] by simp
  then have "call w c st = \<lparr>log = log st @ [(c, files st)], files = fs', failed = None\<rparr>"
    using Cons.prems(1) eff by (simp add: call_def)
  then show ?case
    using Cons.IH [of "\<lparr>log = log st @ [(c, files st)], files = fs', failed = None\<rparr>"] Cons.prems(2)
    by (simp add: calls_def)
qed

lemma missing_skips:
  assumes "subpages_missing w cfg"
  shows "convert_subpages w cfg st = st"
  using assms by (simp add: subpages_missing_def convert_subpages_def split: option.splits)

lemma skip_run_complete:
  assumes l: "load_config w p = Inr cfg" and s: "\<And>st. convert_subpages w cfg st = st"
    and q: "\<And>c f. fst (external w c f) = None"
  shows "failed (generate w p fs) = None
       \<and> calls (generate w p fs) = LoadConfig p # before_pages cfg @ after_pages cfg"
proof -
  have "fst (effect w c f) = None" if "c \<in> set (before_pages cfg @ after_pages cfg)" for c f
    using that q by (auto simp: before_pages_def after_pages_def effect_def)
  then show ?thesis
    using perform_no_raise [of "\<lparr>log = [(LoadConfig p, fs)], files = fs, failed = None\<rparr>"
        "before_pages cfg @ after_pages cfg" w]
    by (simp add: generate_def l generate_with_skip [OF s] calls_def)
qed

lemma skip_outputs:
  assumes "calls st = LoadConfig p # before_pages cfg @ after_pages cfg"
  shows "outputs st =
     [''Destination folder: '' @ destination_folder (content_mapping cfg),
      ''Website generated successfully!'']"
  by (simp add: outputs_def assms before_pages_def after_pages_def)

text \<open>
  C5 as the spec states it, "skipped with a warning", fails: with no subpages
  folder configured the run prints the destination folder and the final message,
  and nothing else.
\<close>

theorem C5_no_warning_counterexample:
  "subpages_folder (content_mapping unset_cfg) = None
   \<and> failed (generate (quiet_world unset_cfg ''pages'' example_tree) ''config.yml'' example_fs) = None
   \<and> outputs (generate (quiet_world unset_cfg ''pages'' example_tree) ''config.yml'' example_fs)
       = [''Destination folder: site'', ''Website generated successfully!'']"
proof -
  have l: "load_config (quiet_world unset_cfg ''pages'' example_tree) ''config.yml'' = Inr unset_cfg"
    by (simp add: quiet_world_def)
  have s: "convert_subpages (quiet_world unset_cfg ''pages'' example_tree) unset_cfg st = st" for st
    by (simp add: convert_subpages_def unset_cfg_def)
  have q: "fst (external (quiet_world unset_cfg ''pages'' example_tree) c f) = None" for c f
    by (simp add: quiet_world_def)
  have r: "failed (generate (quiet_world unset_cfg ''pages'' example_tree) ''config.yml'' example_fs) = None"
    and c: "calls (generate (quiet_world unset_cfg ''pages'' example_tree) ''config.yml'' example_fs)
             = LoadConfig ''config.yml'' # before_pages unset_cfg @ after_pages unset_cfg"
    using skip_run_complete [OF l s q, of example_fs] by simp_all
  have "destination_folder (content_mapping unset_cfg) = ''site''"
    "subpages_folder (content_mapping unset_cfg) = None"
    by (simp_all add: unset_cfg_def)
  then show ?thesis
    using r skip_outputs [OF c] by simp
qed

text \<open>
  C5, amended. If no subpages folder is configured, or the configured folder
  does not exist, the subpage step is skipped silently: it leaves the run as it
  is, and the calls of the run are an initial segment of the calls before the
  pages followed by the asset copy and the final message. If no collaborator
  raises, the run does not fail, makes exactly these calls, and prints only the
  destination folder and the final message.
\<close>

theorem C5_missing_subpages_skipped:
  assumes "load_config w p = Inr cfg" and "subpages_missing w cfg"
  shows "convert_subpages w cfg st = st
       \<and> prefix (calls (generate w p fs)) (LoadConfig p # before_pages cfg @ after_pages cfg)
       \<and> ((\<forall>c f. fst (external w c f) = None) \<longrightarrow>
            failed (generate w p fs) = None
          \<and> calls (generate w p fs) = LoadConfig p # before_pages cfg @ after_pages cfg
          \<and> outputs (generate w p fs)
              = [''Destination folder: '' @ destination_folder (content_mapping cfg),
                 ''Website generated successfully!''])"
proof -
  have s: "convert_subpages w cfg st' = st'" for st'
    using assms(2) by (rule missing_skips)
  have "failed (generate w p fs) = None
          \<and> calls (generate w p fs) = LoadConfig p # before_pages cfg @ after_pages cfg
          \<and> outputs (generate w p fs)
              = [''Destination folder: '' @ destination_folder (content_mapping cfg),
                 ''Website generated successfully!'']"
    if "\<forall>c f. fst (external w c f) = None"
    using skip_run_complete [OF assms(1) s, of fs] that skip_outputs [of "generate w p fs" p cfg]
    by blast
  then show ?thesis
    using s generate_skip_calls [OF assms(1) s, of fs] by blast
qed

definition absent_cfg :: config where
  "absent_cfg =
     \<lparr>source_repository = ''https://github.com/fonte-wiki/Backup-fonte-wiki'',
      content_mapping =
        \<lparr>home_page_source = ''home.md'', subpages_folder = Some ''wiki'',
         destination_folder = ''site'', media_destination_folder = ''assets/media''\<rparr>\<rparr>"

theorem C5_missing_subpages_skipped_witness:
  "subpages_folder (content_mapping absent_cfg) = Some ''wiki''
   \<and> source_at (quiet_world absent_cfg ''pages'' example_tree) ''source_repo/wiki'' = None
   \<and> failed (generate (quiet_world absent_cfg ''pages'' example_tree) ''config.yml'' example_fs) = None
   \<and> calls (generate (quiet_world absent_cfg ''pages'' example_tree) ''config.yml'' example_fs)
       = LoadConfig ''config.yml'' # before_pages absent_cfg @ after_pages absent_cfg
   \<and> outputs (generate (quiet_world absent_cfg ''pages'' example_tree) ''config.yml'' example_fs)
       = [''Destination folder: site'', ''Website generated successfully!'']"
proof -
  have l: "load_config (quiet_world absent_cfg ''pages'' example_tree) ''config.yml'' = Inr absent_cfg"
    by (simp add: quiet_world_def)
  have a: "subpages_folder (content_mapping absent_cfg) = Some ''wiki''"
    by (simp add: absent_cfg_def)
  have n: "source_at (quiet_world absent_cfg ''pages'' example_tree) ''source_repo/wiki'' = None"
    by (simp add: quiet_world_def)
  have m: "subpages_missing (quiet_world absent_cfg ''pages'' example_tree) absent_cfg"
    using n by (simp add: subpages_missing_def a)
  have q: "\<forall>c f. fst (external (quiet_world absent_cfg ''pages'' example_tree) c f) = None"
    by (simp add: quiet_world_def)
  have d: "destination_folder (content_mapping absent_cfg) = ''site''"
    by (simp add: absent_cfg_def)
  show ?thesis
    using C5_missing_subpages_skipped [OF l m, of "\<lparr>log = [], files = example_fs, failed = None\<rparr>" example_fs]
      q a n d
    by simp
qed

subsection \<open>C7: where the assets go\<close>

text \<open>
  Modelled from the spec: \<open>AssetHandler.copy_assets\<close> of \<open>divisor.assets\<close> is not
  under \<open>src/\<close>. Spec section 4.3: "for every non-markdown file reachable under
  sourceRoot, create an AssetRecord and copy bytes unchanged to
  mediaDestination/<relative path>", skipping "markdown files" and "dot-prefixed
  version-control directories". The result lists the copies, source path and
  destination path, for the tree found at the source root.
\<close>

definition is_asset :: "string list \<Rightarrow> bool" where
  "is_asset cs =
     (\<not> endswith (last cs) ''.md'' \<and> \<not> list_ex (\<lambda>d. startswith d ''.'') (butlast cs))"

definition copy_assets :: "node \<Rightarrow> path \<Rightarrow> path \<Rightarrow> (path \<times> path) list" where
  "copy_assets t source_root media_destination =
     map (\<lambda>cs. (source_root @ ''/'' @ join_on sep cs, media_destination @ ''/'' @ join_on sep cs))
       (filter is_asset (rel_files t))"

definition example_repo :: node where
  "example_repo =
     Dir [(''home.md'', File),
          (''img'', Dir [(''photo.png'', File)]),
          (''.git'', Dir [(''config'', File)]),
          (''pages'', example_tree)]"

text \<open>
  C7. In every run, \<open>copy_assets\<close> is called at most once, with the source root
  \<open>source_repo\<close> and the target root
  \<open><destination folder>/<media destination folder>\<close>; and every file it then
  copies, from relative path \<open>r\<close> under the source root, goes to
  \<open><destination folder>/<media destination folder>/r\<close>.
\<close>

theorem C7_asset_target_root:
  assumes "load_config w p = Inr cfg" and "valid_source w cfg"
  shows "prefix (asset_copies (generate w p fs))
           [(''source_repo'',
             destination_folder (content_mapping cfg) @ ''/''
               @ media_destination_folder (content_mapping cfg))]
       \<and> (\<forall>(s, m) \<in> set (asset_copies (generate w p fs)).
            \<forall>(a, b) \<in> set (copy_assets repo s m).
              \<exists>cs \<in> set (rel_files repo).
                a = ''source_repo/'' @ join_on sep cs
              \<and> b = destination_folder (content_mapping cfg) @ ''/''
                    @ media_destination_folder (content_mapping cfg) @ ''/'' @ join_on sep cs)"
proof -
  let ?target = "destination_folder (content_mapping cfg) @ ''/''
                   @ media_destination_folder (content_mapping cfg)"
  have pre: "prefix (asset_copies (generate w p fs)) [(''source_repo'', ?target)]"
    using prefix_concat_map [OF generate_calls_prefix [OF assms], of asset_copy_of fs]
    unfolding plan_asset_copies asset_copies_def .
  have "\<forall>(s, m) \<in> set (asset_copies (generate w p fs)).
            \<forall>(a, b) \<in> set (copy_assets repo s m).
              \<exists>cs \<in> set (rel_files repo).
                a = ''source_repo/'' @ join_on sep cs \<and> b = ?target @ ''/'' @ join_on sep cs"
  proof clarify
    fix s m a b
    assume sm: "(s, m) \<in> set (asset_copies (generate w p fs))"
      and ab: "(a, b) \<in> set (copy_assets repo s m)"
    have "(s, m) \<in> set [(''source_repo'', ?target)]"
      using sm set_mono_prefix [OF pre] by blast
    then have "s = ''source_repo''" "m = ?target" by simp_all
    then show "\<exists>cs \<in> set (rel_files repo).
                a = ''source_repo/'' @ join_on sep cs \<and> b = ?target @ ''/'' @ join_on sep cs"
      using ab by (auto simp: copy_assets_def)
  qed
  then show ?thesis
    using pre by simp
qed

theorem C7_asset_target_root_witness:
  "asset_copies (generate (quiet_world example_cfg ''pages'' example_tree) ''config.yml'' example_fs)
     = [(''source_repo'', ''site/assets/media'')]
   \<and> (''source_repo/img/photo.png'', ''site/assets/media/img/photo.png'')
       \<in> set (copy_assets example_repo ''source_repo'' ''site/assets/media'')
   \<and> (\<exists>cs \<in> set (rel_files example_repo).
         ''source_repo/img/photo.png'' = ''source_repo/'' @ join_on sep cs
       \<and> ''site/assets/media/img/photo.png''
           = destination_folder (content_mapping example_cfg) @ ''/''
               @ media_destination_folder (content_mapping example_cfg) @ ''/'' @ join_on sep cs)"
proof -
  let ?run = "generate (quiet_world example_cfg ''pages'' example_tree) ''config.yml'' example_fs"
  have l: "load_config (quiet_world example_cfg ''pages'' example_tree) ''config.yml'' = Inr example_cfg"
    by (simp add: quiet_world_def)
  have c: "asset_copies ?run = [(''source_repo'', ''site/assets/media'')]"
    unfolding example_run asset_copies_def calls_def
    by (simp add: plan_def before_pages_def after_pages_def example_subpage_plan comp_def)
       (simp add: example_cfg_def)
  have m: "(''source_repo/img/photo.png'', ''site/assets/media/img/photo.png'')
             \<in> set (copy_assets example_repo ''source_repo'' ''site/assets/media'')"
    by (simp add: copy_assets_def example_repo_def example_tree_def filenames_def is_asset_def
        endswith_def startswith_def)
  have "\<forall>(s, m) \<in> set (asset_copies ?run).
            \<forall>(a, b) \<in> set (copy_assets example_repo s m).
              \<exists>cs \<in> set (rel_files example_repo).
                a = ''source_repo/'' @ join_on sep cs
              \<and> b = destination_folder (content_mapping example_cfg) @ ''/''
                    @ media_destination_folder (content_mapping example_cfg) @ ''/'' @ join_on sep cs"
    using C7_asset_target_root [OF l example_valid, of example_fs example_repo] by blast
  then show ?thesis
    using c m by fastforce
qed

subsection \<open>The paths of a page in closed form\<close>

text \<open>
  What \<open>os.path.join\<close> puts before a relative tail: the path itself when it is
  empty or ends with a separator, the path and one separator otherwise.
\<close>

definition with_sep :: "path \<Rightarrow> path" where
  "with_sep a = (if a = [] \<or> endswith a [sep] then a else a @ [sep])"

text \<open>
  The files of a tree whose names end in \<open>.md\<close>; the source path and the
  destination path of the page with relative components \<open>cs\<close>.
\<close>

definition md_files :: "node \<Rightarrow> string list list" where
  "md_files t = filter (\<lambda>cs. endswith (last cs) ''.md'') (rel_files t)"

definition page_source :: "path \<Rightarrow> string list \<Rightarrow> path" where
  "page_source sdir cs = with_sep sdir @ join_on sep cs"

definition page_dest :: "path \<Rightarrow> string list \<Rightarrow> path" where
  "page_dest ddir cs =
     with_sep ddir
       @ (if dot_stem (last cs) then join_on sep cs else strip_md (join_on sep cs))
       @ ''/index.md''"

lemma join_with_sep: "\<not> startswith b [sep] \<Longrightarrow> os_path_join a b = with_sep a @ b"
  by (simp add: os_path_join_def with_sep_def)

lemma foldl_join_closed:
  "cs \<noteq> [] \<Longrightarrow> list_all valid_name cs \<Longrightarrow>
     foldl os_path_join a cs = with_sep a @ join_on sep cs"
proof (induction cs rule: rev_induct)
  case Nil
  then show ?case by simp
next
  case (snoc c cs)
  have c: "valid_name c" and v: "list_all valid_name cs" using snoc.prems by simp_all
  have nc: "\<not> startswith c [sep]" using c by (rule valid_not_startswith)
  show ?case
  proof (cases "cs = []")
    case True
    then show ?thesis using nc by (simp add: join_with_sep)
  next
    case False
    let ?l = "with_sep a @ join_on sep cs"
    have cl: "join_on sep cs \<noteq> []" "last (join_on sep cs) \<noteq> sep"
      using join_on_clean [OF False v] by simp_all
    then have "?l \<noteq> []" "last ?l \<noteq> sep" by simp_all
    then have "os_path_join ?l c = ?l @ sep # c"
      using nc by (simp add: os_path_join_def endswith_sep)
    then show ?thesis
      using snoc.IH [OF False v] False by (simp add: join_on_snoc)
  qed
qed

lemma page_dest_closed:
  assumes ne: "cs \<noteq> []" and v: "list_all valid_name cs" and md: "endswith (last cs) ''.md''"
  shows "os_path_join (os_path_join d (fst (os_path_splitext (join_on sep cs)))) ''index.md''
           = page_dest d cs"
proof -
  let ?stem = "fst (os_path_splitext (join_on sep cs))"
  have st: "?stem \<noteq> []" "hd ?stem \<noteq> sep" "last ?stem \<noteq> sep"
    using stem_clean [OF ne v md] by simp_all
  then have "\<not> startswith ?stem [sep]" by (simp add: startswith_sep)
  then have j: "os_path_join d ?stem = with_sep d @ ?stem" by (rule join_with_sep)
  have "with_sep d @ ?stem \<noteq> []" "last (with_sep d @ ?stem) \<noteq> sep"
    using st by simp_all
  then have "os_path_join (with_sep d @ ?stem) ''index.md'' = (with_sep d @ ?stem) @ ''/index.md''"
    by (rule join_index)
  then show ?thesis
    using j splitext_rel [OF ne v md] by (simp add: page_dest_def)
qed

lemma rel_files_valid:
  "valid_tree t \<Longrightarrow> cs \<in> set (rel_files t) \<Longrightarrow> cs \<noteq> [] \<and> list_all valid_name cs"
  "valid_entries es \<Longrightarrow> cs \<in> set (rel_files_in es) \<Longrightarrow> cs \<noteq> [] \<and> list_all valid_name cs"
proof (induction t and es arbitrary: cs and cs rule: rel_files_rel_files_in.induct)
  case 1
  then show ?case by simp
next
  case (2 es)
  show ?case
  proof (cases "cs \<in> set (rel_files_in es)")
    case True
    then show ?thesis using 2 by simp
  next
    case False
    then obtain n where "n \<in> set (filenames es)" "cs = [n]"
      using "2.prems" by auto
    then show ?thesis
      using valid_filenames [of es] "2.prems"(1) by (auto simp: list_all_iff)
  qed
next
  case 3
  then show ?case by simp
next
  case (4 n es)
  then show ?case by simp
next
  case (5 n sub es)
  show ?case
  proof (cases "cs \<in> set (rel_files_in es)")
    case True
    then show ?thesis using 5 by simp
  next
    case False
    then obtain cs' where "cs' \<in> set (rel_files (Dir sub))" "cs = n # cs'"
      using "5.prems" by auto
    then show ?thesis
      using "5.IH"(1) [of cs'] "5.prems"(1) by simp
  qed
qed

lemma concat_map_concat:
  "concat (map f (concat xss)) = concat (map (\<lambda>xs. concat (map f xs)) xss)"
  by (induction xss) simp_all

lemma concat_map_if: "concat (map (\<lambda>x. if P x then [f x] else []) xs) = map f (filter P xs)"
  by (induction xs) simp_all

lemma page_calls_conversions:
  "concat (map conversion_of (page_calls sdir ddir cs)) =
     (if endswith (last cs) ''.md'' then
        [(foldl os_path_join sdir cs,
          os_path_join (os_path_join ddir (fst (os_path_splitext (join_on sep cs)))) ''index.md'')]
      else [])"
  by (simp add: page_calls_def Let_def)

lemma pages_conversions:
  assumes "valid_tree t"
  shows "concat (map conversion_of (concat (map (page_calls sdir ddir) (rel_files t)))) =
           map (\<lambda>cs. (page_source sdir cs, page_dest ddir cs)) (md_files t)"
proof -
  have "concat (map conversion_of (concat (map (page_calls sdir ddir) (rel_files t)))) =
          concat (map (\<lambda>cs. concat (map conversion_of (page_calls sdir ddir cs))) (rel_files t))"
    unfolding concat_map_concat by (simp add: comp_def)
  also have "\<dots> = map (\<lambda>cs. (foldl os_path_join sdir cs,
          os_path_join (os_path_join ddir (fst (os_path_splitext (join_on sep cs)))) ''index.md''))
        (md_files t)"
    unfolding page_calls_conversions md_files_def by (rule concat_map_if)
  also have "\<dots> = map (\<lambda>cs. (page_source sdir cs, page_dest ddir cs)) (md_files t)"
  proof (rule map_cong [OF refl])
    fix cs assume "cs \<in> set (md_files t)"
    then have "cs \<in> set (rel_files t)" and md: "endswith (last cs) ''.md''"
      by (simp_all add: md_files_def)
    then have v: "cs \<noteq> []" "list_all valid_name cs"
      using rel_files_valid(1) [OF assms] by simp_all
    show "(foldl os_path_join sdir cs,
           os_path_join (os_path_join ddir (fst (os_path_splitext (join_on sep cs)))) ''index.md'')
          = (page_source sdir cs, page_dest ddir cs)"
      using foldl_join_closed [OF v] page_dest_closed [OF v md] by (simp add: page_source_def)
  qed
  finally show ?thesis .
qed

lemma subpage_conversions_closed:
  assumes "subpages_folder (content_mapping cfg) = Some folder" "folder \<noteq> []"
    "folder \<noteq> ''<none>''" "source_at w (''source_repo/'' @ folder) = Some t" "valid_tree t"
  shows "subpage_conversions w cfg =
           map (\<lambda>cs. (page_source (''source_repo/'' @ folder) cs,
                       page_dest (destination_folder (content_mapping cfg)) cs)) (md_files t)"
proof -
  have "subpage_plan w cfg =
          concat (map (page_calls (''source_repo/'' @ folder)
                   (destination_folder (content_mapping cfg))) (rel_files t))"
    using assms(1-4) by (simp add: subpage_plan_def)
  then show ?thesis
    using pages_conversions [OF assms(5)] by (simp add: subpage_conversions_def)
qed

lemma traversal_valid_source:
  assumes "subpages_folder (content_mapping cfg) = Some folder"
    "source_at w (''source_repo/'' @ folder) = Some t" "valid_tree t"
  shows "valid_source w cfg"
  using assms by (simp add: valid_source_def)

subsection \<open>C1: the flattening rule\<close>

text \<open>
  The rule in the spec's words: the source \<open>a/b/c.md\<close>, relative to the subpages
  root, maps to \<open><destination>/a/b/c/index.md\<close>.
\<close>

definition flatten_spec :: "path \<Rightarrow> path \<Rightarrow> path" where
  "flatten_spec dest rel = dest @ ''/'' @ strip_md rel @ ''/index.md''"

text \<open>
  A subpages folder with the two files \<open>.md\<close> and \<open>.md.md\<close>, and the
  directories of an earlier run.
\<close>

definition dot_tree :: node where
  "dot_tree = Dir [(''.md'', File), (''.md.md'', File)]"

definition dot_fs :: filesystem where
  "dot_fs = dirs_fs [[''work''], [''work'', ''site''], [''work'', ''site'', ''.md'']]"

lemma prefix_tl: "prefix xs ys \<Longrightarrow> prefix (tl xs) (tl ys)"
  by (cases xs) (auto simp: prefix_def)

lemma generate_conversions_prefix:
  assumes "load_config w p = Inr cfg" "valid_source w cfg"
  shows "prefix (tl (conversions (generate w p fs))) (subpage_conversions w cfg)"
  using prefix_tl [OF prefix_concat_map [OF generate_calls_prefix [OF assms], of conversion_of fs]]
  unfolding plan_conversions conversions_def by simp

lemma generate_conversions_complete:
  assumes "load_config w p = Inr cfg" "valid_source w cfg" "failed (generate w p fs) = None"
  shows "tl (conversions (generate w p fs)) = subpage_conversions w cfg"
  using plan_conversions [of p w cfg]
  unfolding conversions_def generate_calls_complete [OF assms] by simp

lemma example_conversions:
  "conversions (generate (quiet_world example_cfg ''pages'' example_tree) ''config.yml'' example_fs)
     = [(''source_repo/home.md'', ''site/index.md''),
        (''source_repo/pages/b.md'', ''site/b/index.md''),
        (''source_repo/pages/a.md'', ''site/a/index.md''),
        (''source_repo/pages/a/c.md'', ''site/a/c/index.md'')]"
  unfolding example_run conversions_def calls_def
  by (simp add: plan_def before_pages_def after_pages_def example_subpage_plan comp_def)
     (simp add: example_cfg_def)

lemma dot_valid: "valid_source (quiet_world example_cfg ''pages'' dot_tree) example_cfg"
  by (simp add: valid_source_def quiet_world_def example_cfg_def dot_tree_def valid_name_def)

lemma dot_subpage_plan:
  "subpage_plan (quiet_world example_cfg ''pages'' dot_tree) example_cfg =
     [Makedirs ''site/.md'',
      ConvertFile ''source_repo/pages/.md'' ''site/.md/index.md'' ''source_repo'',
      Makedirs ''site/.md'',
      ConvertFile ''source_repo/pages/.md.md'' ''site/.md/index.md'' ''source_repo'']"
  by (simp add: subpage_plan_def quiet_world_def example_cfg_def dot_tree_def
      filenames_def page_calls_def path_eval)

lemma dot_run:
  "generate (quiet_world example_cfg ''pages'' dot_tree) ''config.yml'' dot_fs =
     \<lparr>log = map (\<lambda>c. (c, dot_fs))
              (LoadConfig ''config.yml'' # plan (quiet_world example_cfg ''pages'' dot_tree) example_cfg),
      files = dot_fs, failed = None\<rparr>"
proof (rule generate_unchanged [OF _ dot_valid])
  show "load_config (quiet_world example_cfg ''pages'' dot_tree) ''config.yml'' = Inr example_cfg"
    by (simp add: quiet_world_def)
  show "external (quiet_world example_cfg ''pages'' dot_tree) = (\<lambda>c fs. (None, fs))"
    by (simp add: quiet_world_def)
  have "os_path_isdir dot_fs ''site/.md''"
    by (simp add: dot_fs_def fs_eval)
  then show "os_path_isdir dot_fs d"
    if "Makedirs d \<in> set (subpage_plan (quiet_world example_cfg ''pages'' dot_tree) example_cfg)" for d
    using that unfolding dot_subpage_plan by auto
qed

lemma dot_conversions:
  "conversions (generate (quiet_world example_cfg ''pages'' dot_tree) ''config.yml'' dot_fs)
     = [(''source_repo/home.md'', ''site/index.md''),
        (''source_repo/pages/.md'', ''site/.md/index.md''),
        (''source_repo/pages/.md.md'', ''site/.md/index.md'')]"
  unfolding dot_run conversions_def calls_def
  by (simp add: plan_def before_pages_def after_pages_def dot_subpage_plan comp_def)
     (simp add: example_cfg_def)

text \<open>
  C1 as stated fails for a file named \<open>.md\<close>: \<open>os.path.splitext\<close> takes a leading
  dot for part of the name, strips nothing, and the page goes to
  \<open>site/.md/index.md\<close>, not to \<open>site//index.md\<close>.
\<close>

theorem C1_dot_file_counterexample:
  "(''source_repo/pages/.md'', ''site/.md/index.md'')
     \<in> set (conversions (generate (quiet_world example_cfg ''pages'' dot_tree) ''config.yml'' dot_fs))
   \<and> (''source_repo/pages/.md'', flatten_spec ''site'' ''.md'')
     \<notin> set (conversions (generate (quiet_world example_cfg ''pages'' dot_tree) ''config.yml'' dot_fs))
   \<and> flatten_spec ''site'' ''.md'' = ''site//index.md''"
  unfolding dot_conversions by (simp add: flatten_spec_def strip_md_def)

text \<open>
  C1, amended. When the subpages folder is traversed, the subpage conversions of
  a run are, in the order of the walk, an initial segment of the conversions of
  the files whose names end in \<open>.md\<close>, and all of them when the run does not
  fail. The file at relative path \<open>r\<close> is converted from
  \<open>source_repo/<folder>/r\<close> to \<open>os.path.join(<destination>, s, "index.md")\<close>,
  where \<open>s\<close> is \<open>r\<close> without its \<open>.md\<close>, except that \<open>s\<close> is \<open>r\<close> itself when
  the file name is only dots before \<open>.md\<close>. For any other name and a
  destination folder that is not empty and does not end with a separator, this
  is \<open><destination>/a/b/c/index.md\<close>.
\<close>

theorem C1_flattening:
  assumes "load_config w p = Inr cfg"
    and "subpages_folder (content_mapping cfg) = Some folder"
    and "folder \<noteq> []" and "folder \<noteq> ''<none>''"
    and "source_at w (''source_repo/'' @ folder) = Some t"
    and "valid_tree t"
  shows "prefix (tl (conversions (generate w p fs)))
           (map (\<lambda>cs. (page_source (''source_repo/'' @ folder) cs,
                       page_dest (destination_folder (content_mapping cfg)) cs)) (md_files t))
       \<and> (failed (generate w p fs) = None \<longrightarrow>
            tl (conversions (generate w p fs))
              = map (\<lambda>cs. (page_source (''source_repo/'' @ folder) cs,
                            page_dest (destination_folder (content_mapping cfg)) cs)) (md_files t))
       \<and> (\<forall>cs d. \<not> dot_stem (last cs) \<and> d \<noteq> [] \<and> \<not> endswith d [sep] \<longrightarrow>
            page_dest d cs = flatten_spec d (join_on sep cs))"
proof -
  have v: "valid_source w cfg"
    using assms(2,5,6) by (rule traversal_valid_source)
  have c: "subpage_conversions w cfg =
             map (\<lambda>cs. (page_source (''source_repo/'' @ folder) cs,
                         page_dest (destination_folder (content_mapping cfg)) cs)) (md_files t)"
    using assms(2-6) by (rule subpage_conversions_closed)
  have "page_dest d cs = flatten_spec d (join_on sep cs)"
    if "\<not> dot_stem (last cs)" "d \<noteq> []" "\<not> endswith d [sep]" for cs d
    using that by (simp add: page_dest_def flatten_spec_def with_sep_def)
  then show ?thesis
    using generate_conversions_prefix [OF assms(1) v, of fs]
      generate_conversions_complete [OF assms(1) v, of fs] c
    by auto
qed

theorem C1_flattening_witness:
  "tl (conversions (generate (quiet_world example_cfg ''pages'' example_tree) ''config.yml'' example_fs))
     = map (\<lambda>cs. (page_source ''source_repo/pages'' cs, page_dest ''site'' cs))
         (md_files example_tree)
   \<and> tl (conversions (generate (quiet_world example_cfg ''pages'' example_tree) ''config.yml'' example_fs))
     = [(''source_repo/pages/b.md'', ''site/b/index.md''),
        (''source_repo/pages/a.md'', ''site/a/index.md''),
        (''source_repo/pages/a/c.md'', ''site/a/c/index.md'')]
   \<and> page_dest ''site'' [''a'', ''c.md''] = flatten_spec ''site'' (join_on sep [''a'', ''c.md''])
   \<and> flatten_spec ''site'' ''a/c.md'' = ''site/a/c/index.md''"
proof -
  let ?w = "quiet_world example_cfg ''pages'' example_tree"
  have l: "load_config ?w ''config.yml'' = Inr example_cfg"
    by (simp add: quiet_world_def)
  have s: "subpages_folder (content_mapping example_cfg) = Some ''pages''"
    "destination_folder (content_mapping example_cfg) = ''site''"
    by (simp_all add: example_cfg_def)
  have a: "source_at ?w (''source_repo/'' @ ''pages'') = Some example_tree"
    by (simp add: quiet_world_def)
  have v: "valid_tree example_tree"
    by (simp add: example_tree_def valid_name_def)
  have f: "failed (generate ?w ''config.yml'' example_fs) = None"
    unfolding example_run by simp
  have d: "\<not> dot_stem (last [''a'', ''c.md''])" "\<not> endswith ''site'' [sep]"
    by (simp_all add: dot_stem_def strip_md_def endswith_def)
  have "flatten_spec ''site'' ''a/c.md'' = ''site/a/c/index.md''"
    by (simp add: flatten_spec_def strip_md_def)
  then show ?thesis
    using C1_flattening [OF l s(1) _ _ a v, of example_fs] f d s(2) example_conversions
    by simp
qed

end
